theory Spec2Isabelle
  imports Main "HOL-Library.AList" "HOL-Library.Char_ord" "HOL-Library.List_Lexorder"
    "HOL-Library.Sublist"
begin

section \<open>A JSON document store on a file system (main.go)\<close>

text \<open>
  The driver of main.go keeps every record as a file
  \<^verbatim>\<open><dir>/<collection>/<resource>.json\<close>. Its four operations are short; what they
  do is decided by the path arithmetic (\<^verbatim>\<open>filepath.Join\<close>, string concatenation of
  \<^verbatim>\<open>".json"\<close>) and by the file-system calls they issue. The driver is embedded
  function by function; the library calls it makes are given a sequential model that is
  spelled out below, so that every theorem can be traced to a sequence of calls.
\<close>

subsection \<open>Path strings: \<^verbatim>\<open>filepath.Clean\<close> and \<^verbatim>\<open>filepath.Join\<close> (Unix)\<close>

text \<open>\<^verbatim>\<open>strings.Split(s, "/")\<close>: the components between separators, never an empty list.\<close>

fun split_sep :: "string \<Rightarrow> string list" where
  "split_sep [] = [[]]"
| "split_sep (c # cs) =
     (if c = CHR ''/'' then [] # split_sep cs
      else (case split_sep cs of
              [] \<Rightarrow> [[c]]
            | x # xs \<Rightarrow> (c # x) # xs))"

text \<open>\<^verbatim>\<open>strings.Join(elems, "/")\<close>.\<close>

fun join_sep :: "string list \<Rightarrow> string" where
  "join_sep [] = []"
| "join_sep [x] = x"
| "join_sep (x # y # zs) = x @ CHR ''/'' # join_sep (y # zs)"

text \<open>
  One step of \<^verbatim>\<open>filepath.Clean\<close>, on the stack of components kept so far (innermost
  first): empty components and \<^verbatim>\<open>.\<close> are dropped; \<^verbatim>\<open>..\<close> removes the
  component before it when there is one that is not itself \<^verbatim>\<open>..\<close>, is dropped at the
  top of a rooted path and is kept otherwise.
\<close>

definition clean_step :: "bool \<Rightarrow> string list \<Rightarrow> string \<Rightarrow> string list" where
  "clean_step rooted st c =
     (if c = [] \<or> c = ''.'' then st
      else if c = ''..'' then
        (case st of
           [] \<Rightarrow> (if rooted then [] else [''..''])
         | t # ts \<Rightarrow> (if t = ''..'' then ''..'' # st else ts))
      else c # st)"

definition Clean :: "string \<Rightarrow> string" where
  "Clean path =
     (if path = [] then ''.''
      else
        let rooted = (hd path = CHR ''/'');
            out = rev (foldl (clean_step rooted) [] (split_sep path))
        in if rooted then CHR ''/'' # join_sep out
           else if out = [] then ''.'' else join_sep out)"

text \<open>\<^verbatim>\<open>filepath.Join\<close>: leading empty elements are skipped, the rest is joined and cleaned.\<close>

definition Join :: "string list \<Rightarrow> string" where
  "Join elem =
     (case dropWhile (\<lambda>e. e = []) elem of
        [] \<Rightarrow> []
      | e # es \<Rightarrow> Clean (join_sep (e # es)))"

subsection \<open>The file system\<close>

text \<open>
  A file system is a finite table from absolute paths (lists of components below the
  root directory \<open>[]\<close>) to nodes. Only directories and regular files are modelled: no
  symbolic links, no permissions, no devices, and no failure of the medium. A call
  therefore fails only for the reasons the table shows (a missing entry, a file where a
  directory is needed, a directory where a file is needed).
\<close>

datatype node = File string | Dir

datatype errno = ENOENT | ENOTDIR | EISDIR | EEXIST | EINVAL | EBUSY

type_synonym fsmap = "(string list \<times> node) list"

definition node_at :: "fsmap \<Rightarrow> string list \<Rightarrow> node option" where
  "node_at fs p = (if p = [] then Some Dir else map_of fs p)"

text \<open>
  Path lookup as the kernel does it: every directory on the way has to exist and to be a
  directory. \<open>walk fs pre cs\<close> continues from the path \<open>pre\<close> along \<open>cs\<close>.
\<close>

fun walk :: "fsmap \<Rightarrow> string list \<Rightarrow> string list \<Rightarrow> errno + node" where
  "walk fs pre [] = (case node_at fs pre of None \<Rightarrow> Inl ENOENT | Some n \<Rightarrow> Inr n)"
| "walk fs pre (c # cs) =
     (case node_at fs pre of
        None \<Rightarrow> Inl ENOENT
      | Some (File _) \<Rightarrow> Inl ENOTDIR
      | Some Dir \<Rightarrow> walk fs (pre @ [c]) cs)"

text \<open>
  How the kernel reads a path string relative to the working directory: \<^verbatim>\<open>.\<close> and empty
  components stay, \<^verbatim>\<open>..\<close> goes to the parent (the root is its own parent). The empty
  string names nothing. Every path the driver hands to the system is an output of
  \<^verbatim>\<open>filepath.Clean\<close>, possibly with a suffix appended to its last component, so a
  \<^verbatim>\<open>..\<close> never follows a name there and reading it lexically is exact.
\<close>

definition norm_step :: "string list \<Rightarrow> string \<Rightarrow> string list" where
  "norm_step st c =
     (if c = [] \<or> c = ''.'' then st
      else if c = ''..'' then (case st of [] \<Rightarrow> [] | t # ts \<Rightarrow> ts)
      else c # st)"

definition resolve :: "string list \<Rightarrow> string \<Rightarrow> string list option" where
  "resolve wd path =
     (if path = [] then None
      else Some (rev (foldl norm_step (if hd path = CHR ''/'' then [] else rev wd)
                        (split_sep path))))"

text \<open>\<^verbatim>\<open>os.MkdirAll\<close> on a resolved path: missing directories are created from the top.\<close>

fun mkdir_all :: "fsmap \<Rightarrow> string list \<Rightarrow> string list \<Rightarrow> errno + fsmap" where
  "mkdir_all fs pre [] = Inr fs"
| "mkdir_all fs pre (c # cs) =
     (case node_at fs (pre @ [c]) of
        Some (File _) \<Rightarrow> Inl ENOTDIR
      | Some Dir \<Rightarrow> mkdir_all fs (pre @ [c]) cs
      | None \<Rightarrow> mkdir_all (AList.update (pre @ [c]) Dir fs) (pre @ [c]) cs)"

text \<open>
  \<^verbatim>\<open>ioutil.WriteFile\<close> (open with create and truncate, write, close): the parent has to
  be a directory, the target must not be one.
\<close>

definition write_file :: "fsmap \<Rightarrow> string list \<Rightarrow> string \<Rightarrow> errno + fsmap" where
  "write_file fs p data =
     (if p = [] then Inl EISDIR
      else case walk fs [] (butlast p) of
             Inl e \<Rightarrow> Inl e
           | Inr (File _) \<Rightarrow> Inl ENOTDIR
           | Inr Dir \<Rightarrow>
               (case node_at fs p of
                  Some Dir \<Rightarrow> Inl EISDIR
                | _ \<Rightarrow> Inr (AList.update p (File data) fs)))"

text \<open>
  \<^verbatim>\<open>os.Rename\<close>: Go refuses a new name that is a directory (\<^verbatim>\<open>EEXIST\<close>) before it
  calls \<^verbatim>\<open>rename(2)\<close>; a file replaces the file at the new name in one step; a
  directory moves with everything below it.
\<close>

definition move_key :: "string list \<Rightarrow> string list \<Rightarrow> string list \<Rightarrow> string list" where
  "move_key old new k = (if prefix old k then new @ drop (length old) k else k)"

definition rename :: "fsmap \<Rightarrow> string list \<Rightarrow> string list \<Rightarrow> errno + fsmap" where
  "rename fs old new =
     (if walk fs [] new = Inr Dir then Inl EEXIST
      else case walk fs [] old of
        Inl e \<Rightarrow> Inl e
      | Inr n \<Rightarrow>
          (case walk fs [] (butlast new) of
             Inl e \<Rightarrow> Inl e
           | Inr (File _) \<Rightarrow> Inl ENOTDIR
           | Inr Dir \<Rightarrow>
               (if old = new then Inr fs
                else case n of
                  File data \<Rightarrow> Inr (AList.update new (File data) (AList.delete old fs))
                | Dir \<Rightarrow>
                    (if old = [] then Inl EBUSY
                     else if prefix old new then Inl EINVAL
                     else if node_at fs new \<noteq> None then Inl ENOTDIR
                     else Inr (map (\<lambda>(k, n). (move_key old new k, n)) fs)))))"

text \<open>
  \<^verbatim>\<open>os.RemoveAll\<close> on a resolved path: the entry and everything below it goes; a path
  that does not exist is no error. The root directory itself cannot be removed: its
  content goes and the call reports \<^verbatim>\<open>EBUSY\<close>.
\<close>

definition remove_all :: "fsmap \<Rightarrow> string list \<Rightarrow> errno option \<times> fsmap" where
  "remove_all fs p =
     (if p = [] then (Some EBUSY, [])
      else case walk fs [] (butlast p) of
             Inl ENOENT \<Rightarrow> (None, fs)
           | Inl e \<Rightarrow> (Some e, fs)
           | Inr (File _) \<Rightarrow> (Some ENOTDIR, fs)
           | Inr Dir \<Rightarrow> (None, filter (\<lambda>(k, n). \<not> prefix p k) fs))"

text \<open>\<^verbatim>\<open>ioutil.ReadDir\<close>: the names in a directory, sorted by name.\<close>

definition read_dir :: "fsmap \<Rightarrow> string list \<Rightarrow> errno + string list" where
  "read_dir fs p =
     (case walk fs [] p of
        Inl e \<Rightarrow> Inl e
      | Inr (File _) \<Rightarrow> Inl ENOTDIR
      | Inr Dir \<Rightarrow>
          Inr (sort (remdups (map (\<lambda>(k, n). last k)
                 (filter (\<lambda>(k, n). k \<noteq> [] \<and> butlast k = p) fs)))))"

text \<open>\<^verbatim>\<open>ioutil.ReadFile\<close>.\<close>

definition read_file :: "fsmap \<Rightarrow> string list \<Rightarrow> errno + string" where
  "read_file fs p =
     (case walk fs [] p of
        Inl e \<Rightarrow> Inl e
      | Inr Dir \<Rightarrow> Inl EISDIR
      | Inr (File data) \<Rightarrow> Inr data)"

subsection \<open>The world the driver runs in\<close>

text \<open>
  Every call the driver makes to the outside is recorded, in order: the file-system
  calls with the path strings they were given, and the acquisitions and releases of
  mutexes. A mutex is the address of a \<^verbatim>\<open>sync.Mutex\<close>; \<open>allocated\<close> counts the
  mutexes allocated so far, so the next \<^verbatim>\<open>&sync.Mutex{}\<close> gets that address. The
  model runs one operation at a time; it records where a lock is taken and released and
  does not model waiting for it.
\<close>

datatype event =
    MuLock | MuUnlock
  | MutexLock nat | MutexUnlock nat
  | Stat string | MkdirAll string | WriteFile string string | Rename string string
  | RemoveAll string | ReadDir string | ReadFile string

record world =
  cwd :: "string list"
  files :: fsmap
  allocated :: nat
  trace :: "event list"

datatype error = Errorf string | PathError errno | JSONError string

datatype FileMode = ModeDir | ModeRegular | ModeIrregular

definition IsDir :: "FileMode \<Rightarrow> bool" where
  "IsDir m = (m = ModeDir)"

definition IsRegular :: "FileMode \<Rightarrow> bool" where
  "IsRegular m = (m = ModeRegular)"

definition emit :: "event \<Rightarrow> world \<Rightarrow> world" where
  "emit e w = w\<lparr>trace := trace w @ [e]\<rparr>"

definition mode_of :: "node \<Rightarrow> FileMode" where
  "mode_of n = (case n of Dir \<Rightarrow> ModeDir | File _ \<Rightarrow> ModeRegular)"

definition os_Stat :: "string \<Rightarrow> world \<Rightarrow> (errno + FileMode) \<times> world" where
  "os_Stat path w =
     ((case resolve (cwd w) path of
         None \<Rightarrow> Inl ENOENT
       | Some p \<Rightarrow> (case walk (files w) [] p of Inl e \<Rightarrow> Inl e | Inr n \<Rightarrow> Inr (mode_of n))),
      emit (Stat path) w)"

definition os_MkdirAll :: "string \<Rightarrow> world \<Rightarrow> error option \<times> world" where
  "os_MkdirAll path w =
     (let w' = emit (MkdirAll path) w in
      case resolve (cwd w) path of
        None \<Rightarrow> (Some (PathError ENOENT), w')
      | Some p \<Rightarrow>
          (case mkdir_all (files w) [] p of
             Inl e \<Rightarrow> (Some (PathError e), w')
           | Inr fs \<Rightarrow> (None, w'\<lparr>files := fs\<rparr>)))"

definition ioutil_WriteFile :: "string \<Rightarrow> string \<Rightarrow> world \<Rightarrow> error option \<times> world" where
  "ioutil_WriteFile path data w =
     (let w' = emit (WriteFile path data) w in
      case resolve (cwd w) path of
        None \<Rightarrow> (Some (PathError ENOENT), w')
      | Some p \<Rightarrow>
          (case write_file (files w) p data of
             Inl e \<Rightarrow> (Some (PathError e), w')
           | Inr fs \<Rightarrow> (None, w'\<lparr>files := fs\<rparr>)))"

definition os_Rename :: "string \<Rightarrow> string \<Rightarrow> world \<Rightarrow> error option \<times> world" where
  "os_Rename oldpath newpath w =
     (let w' = emit (Rename oldpath newpath) w in
      case (resolve (cwd w) oldpath, resolve (cwd w) newpath) of
        (Some old, Some new) \<Rightarrow>
          (case rename (files w) old new of
             Inl e \<Rightarrow> (Some (PathError e), w')
           | Inr fs \<Rightarrow> (None, w'\<lparr>files := fs\<rparr>))
      | _ \<Rightarrow> (Some (PathError ENOENT), w'))"

text \<open>
  \<^verbatim>\<open>os.RemoveAll\<close> returns nil for the empty path and refuses, with \<^verbatim>\<open>EINVAL\<close>, a path
  whose last component is \<^verbatim>\<open>.\<close> (the path \<^verbatim>\<open>.\<close> itself, or one ending in \<^verbatim>\<open>/.\<close>).
\<close>

definition endsWithDot :: "string \<Rightarrow> bool" where
  "endsWithDot path =
     (path = ''.'' \<or>
      (length path \<ge> 2 \<and> last path = CHR ''.'' \<and> last (butlast path) = CHR ''/''))"

definition os_RemoveAll :: "string \<Rightarrow> world \<Rightarrow> error option \<times> world" where
  "os_RemoveAll path w =
     (let w' = emit (RemoveAll path) w in
      if path = [] then (None, w')
      else if endsWithDot path then (Some (PathError EINVAL), w')
      else case resolve (cwd w) path of
        None \<Rightarrow> (None, w')
      | Some p \<Rightarrow>
          (case remove_all (files w) p of
             (None, fs) \<Rightarrow> (None, w'\<lparr>files := fs\<rparr>)
           | (Some e, fs) \<Rightarrow> (Some (PathError e), w'\<lparr>files := fs\<rparr>)))"

definition ioutil_ReadDir :: "string \<Rightarrow> world \<Rightarrow> (error + string list) \<times> world" where
  "ioutil_ReadDir path w =
     ((case resolve (cwd w) path of
         None \<Rightarrow> Inl (PathError ENOENT)
       | Some p \<Rightarrow>
           (case read_dir (files w) p of
              Inl e \<Rightarrow> Inl (PathError e)
            | Inr names \<Rightarrow> Inr names)),
      emit (ReadDir path) w)"

definition ioutil_ReadFile :: "string \<Rightarrow> world \<Rightarrow> (error + string) \<times> world" where
  "ioutil_ReadFile path w =
     ((case resolve (cwd w) path of
         None \<Rightarrow> Inl (PathError ENOENT)
       | Some p \<Rightarrow>
           (case read_file (files w) p of
              Inl e \<Rightarrow> Inl (PathError e)
            | Inr data \<Rightarrow> Inr data)),
      emit (ReadFile path) w)"

text \<open>\<^verbatim>\<open>os.IsNotExist\<close>.\<close>

definition IsNotExist :: "errno \<Rightarrow> bool" where
  "IsNotExist e = (e = ENOENT)"

subsection \<open>The JSON codec\<close>

text \<open>
  \<^verbatim>\<open>encoding/json\<close> is not part of the program. The driver is parametrised by the two
  functions it calls: \<^verbatim>\<open>json.MarshalIndent(v, prefix, indent)\<close>, which yields the bytes
  or an error, and \<^verbatim>\<open>json.Unmarshal(b, &v)\<close>, which yields an error or nil together
  with the value the target holds afterwards.
\<close>

record 'v json =
  MarshalIndent :: "'v \<Rightarrow> string \<Rightarrow> string \<Rightarrow> error + string"
  Unmarshal :: "string \<Rightarrow> 'v \<Rightarrow> error option \<times> 'v"

subsection \<open>The driver\<close>

text \<open>
  Of the fields of \<^verbatim>\<open>Driver\<close>, \<open>dir\<close> and \<open>mutexes\<close> are state; \<^verbatim>\<open>mu\<close> shows as the
  events \<open>MuLock\<close> and \<open>MuUnlock\<close>; the logger only prints.
\<close>

record Driver =
  dir :: string
  mutexes :: "string \<rightharpoonup> nat"

definition New :: "string \<Rightarrow> world \<Rightarrow> (Driver \<times> error option) \<times> world" where
  "New dir0 w =
     (let driver = \<lparr>dir = Clean dir0, mutexes = Map.empty\<rparr> in
      case os_Stat (dir driver) w of
        (Inr fi, w1) \<Rightarrow> ((driver, None), w1)
      | (Inl err, w1) \<Rightarrow>
          (case os_MkdirAll (dir driver) w1 of (r, w2) \<Rightarrow> ((driver, r), w2)))"

definition stat :: "string \<Rightarrow> world \<Rightarrow> (errno + FileMode) \<times> world" where
  "stat path w =
     (case os_Stat path w of
        (Inl err, w1) \<Rightarrow> (if IsNotExist err then os_Stat (path @ ''.json'') w1 else (Inl err, w1))
      | (Inr fi, w1) \<Rightarrow> (Inr fi, w1))"

definition getOrCreateMutex :: "Driver \<Rightarrow> string \<Rightarrow> world \<Rightarrow> nat \<times> Driver \<times> world" where
  "getOrCreateMutex d collection w =
     (let w1 = emit MuLock w in
      case mutexes d collection of
        Some m \<Rightarrow> (m, d, emit MuUnlock w1)
      | None \<Rightarrow>
          (let m = allocated w1
           in (m, d\<lparr>mutexes := (mutexes d)(collection \<mapsto> m)\<rparr>,
               emit MuUnlock (w1\<lparr>allocated := Suc m\<rparr>))))"

text \<open>The part of \<^verbatim>\<open>Write\<close> that runs with the collection's mutex held.\<close>

definition Write_locked ::
  "'v json \<Rightarrow> Driver \<Rightarrow> string \<Rightarrow> string \<Rightarrow> 'v \<Rightarrow> world \<Rightarrow> error option \<times> world" where
  "Write_locked J d collection resources v w =
     (let dir = Join [dir d, collection];
          fnlPath = Join [dir, resources @ ''.json''];
          tmpPath = fnlPath @ ''.tmp''
      in case os_MkdirAll dir w of
           (Some err, w1) \<Rightarrow> (Some err, w1)
         | (None, w1) \<Rightarrow>
             (case MarshalIndent J v [] [CHR 0x09] of
                Inl err \<Rightarrow> (Some err, w1)
              | Inr b \<Rightarrow>
                  (case ioutil_WriteFile tmpPath (b @ [CHR 0x0A]) w1 of
                     (Some err, w2) \<Rightarrow> (Some err, w2)
                   | (None, w2) \<Rightarrow> os_Rename tmpPath fnlPath w2)))"

definition Write ::
  "'v json \<Rightarrow> Driver \<Rightarrow> string \<Rightarrow> string \<Rightarrow> 'v \<Rightarrow> world \<Rightarrow> error option \<times> Driver \<times> world" where
  "Write J d collection resources v w =
     (if collection = [] then (Some (Errorf ''collection name cannot be empty''), d, w)
      else if resources = [] then
        (Some (Errorf ''missing resource - unable to save record (no name)''), d, w)
      else case getOrCreateMutex d collection w of
        (mutex, d1, w1) \<Rightarrow>
          (case Write_locked J d1 collection resources v (emit (MutexLock mutex) w1) of
             (r, w2) \<Rightarrow> (r, d1, emit (MutexUnlock mutex) w2)))"

text \<open>The loop of \<^verbatim>\<open>ReadAll\<close> over the directory entries.\<close>

fun ReadAll_loop :: "string \<Rightarrow> string list \<Rightarrow> string list \<Rightarrow> world \<Rightarrow> (error + string list) \<times> world" where
  "ReadAll_loop dirname [] records w = (Inr records, w)"
| "ReadAll_loop dirname (name # names) records w =
     (case ioutil_ReadFile (Join [dirname, name]) w of
        (Inl err, w1) \<Rightarrow> (Inl err, w1)
      | (Inr data, w1) \<Rightarrow> ReadAll_loop dirname names (records @ [data]) w1)"

definition ReadAll :: "Driver \<Rightarrow> string \<Rightarrow> world \<Rightarrow> (error + string list) \<times> world" where
  "ReadAll d collection w =
     (if collection = [] then (Inl (Errorf ''collection name cannot be empty''), w)
      else
        let dir = Join [dir d, collection]
        in case stat dir w of
             (Inl err, w1) \<Rightarrow> (Inl (PathError err), w1)
           | (Inr fi, w1) \<Rightarrow>
               (case ioutil_ReadDir dir w1 of
                  (Inl err, w2) \<Rightarrow> (Inl err, w2)
                | (Inr names, w2) \<Rightarrow> ReadAll_loop dir names [] w2))"

text \<open>The part of \<^verbatim>\<open>Delete\<close> that runs with the collection's mutex held.\<close>

definition Delete_locked :: "Driver \<Rightarrow> string \<Rightarrow> world \<Rightarrow> error option \<times> world" where
  "Delete_locked d path w =
     (let dir = Join [dir d, path]
      in case stat dir w of
           (Inl err, w1) \<Rightarrow> (Some (Errorf (''unable to find file or dir named '' @ path)), w1)
         | (Inr fi, w1) \<Rightarrow>
             (if IsDir fi then os_RemoveAll dir w1
              else if IsRegular fi then os_RemoveAll (dir @ ''.json'') w1
              else (None, w1)))"

definition Delete :: "Driver \<Rightarrow> string \<Rightarrow> string \<Rightarrow> world \<Rightarrow> error option \<times> Driver \<times> world" where
  "Delete d collection resource w =
     (let path = Join [collection, resource]
      in case getOrCreateMutex d collection w of
        (mutex, d1, w1) \<Rightarrow>
          (case Delete_locked d1 path (emit (MutexLock mutex) w1) of
             (r, w2) \<Rightarrow> (r, d1, emit (MutexUnlock mutex) w2)))"

text \<open>
  \<^verbatim>\<open>Read\<close> returns the error, or nil, and the value the target \<open>v\<close> holds afterwards.
\<close>

definition Read ::
  "'v json \<Rightarrow> Driver \<Rightarrow> string \<Rightarrow> string \<Rightarrow> 'v \<Rightarrow> world \<Rightarrow> (error option \<times> 'v) \<times> world" where
  "Read J d collection resource v w =
     (if collection = [] then ((Some (Errorf ''collection name cannot be empty''), v), w)
      else if resource = [] then
        ((Some (Errorf ''cissing resource - unable to read record (no name)''), v), w)
      else
        let record = Join [dir d, collection, resource @ ''.json'']
        in case stat record w of
             (Inl err, w1) \<Rightarrow> ((Some (PathError err), v), w1)
           | (Inr fi, w1) \<Rightarrow>
               (case ioutil_ReadFile (record @ ''.json'') w1 of
                  (Inl err, w2) \<Rightarrow> ((Some err, v), w2)
                | (Inr b, w2) \<Rightarrow> (Unmarshal J b v, w2)))"

subsection \<open>Notions used in the statements\<close>


text \<open>
  A name in the sense of the data model: one path component, so not empty, without a
  separator, and neither \<^verbatim>\<open>.\<close> nor \<^verbatim>\<open>..\<close>.
\<close>

definition plain :: "string \<Rightarrow> bool" where
  "plain n = (n \<noteq> [] \<and> CHR ''/'' \<notin> set n \<and> n \<noteq> ''.'' \<and> n \<noteq> ''..'')"

text \<open>The calls to the file system among the recorded events.\<close>

fun is_fs_call :: "event \<Rightarrow> bool" where
  "is_fs_call MuLock = False"
| "is_fs_call MuUnlock = False"
| "is_fs_call (MutexLock m) = False"
| "is_fs_call (MutexUnlock m) = False"
| "is_fs_call e = True"

text \<open>
  A codec for the closed examples: a value is a string without quotes or escapes, written
  between double quotes; decoding skips white space around the literal.
\<close>

definition is_space :: "char \<Rightarrow> bool" where
  "is_space c = (c = CHR '' '' \<or> c = CHR 0x09 \<or> c = CHR 0x0A \<or> c = CHR 0x0D)"

definition string_codec :: "string json" where
  "string_codec =
     \<lparr>MarshalIndent = (\<lambda>v prefix indent. Inr (CHR 0x22 # v @ [CHR 0x22])),
      Unmarshal = (\<lambda>b v.
        let t = rev (dropWhile is_space (rev (dropWhile is_space b)))
        in if length t \<ge> 2 \<and> hd t = CHR 0x22 \<and> last t = CHR 0x22
           then (None, butlast (tl t))
           else (Some (JSONError ''invalid character''), v))\<rparr>"

text \<open>
  The worlds of the closed examples: the working directory \<^verbatim>\<open>/home\<close>, then a store
  constructed at \<^verbatim>\<open>./db\<close> by \<open>New\<close>.
\<close>

definition home :: world where
  "home = \<lparr>cwd = [''home''], files = [([''home''], Dir)], allocated = 0, trace = []\<rparr>"

definition db :: Driver where
  "db = \<lparr>dir = ''db'', mutexes = Map.empty\<rparr>"

definition db_world :: world where
  "db_world = \<lparr>cwd = [''home''], files = [([''home''], Dir), ([''home'', ''db''], Dir)],
     allocated = 0, trace = []\<rparr>"

definition db_users :: Driver where
  "db_users = \<lparr>dir = ''db'', mutexes = [''users'' \<mapsto> 0]\<rparr>"

definition users_world :: world where
  "users_world = \<lparr>cwd = [''home''],
     files = [([''home''], Dir), ([''home'', ''db''], Dir), ([''home'', ''db'', ''users''], Dir),
              ([''home'', ''db'', ''users'', ''John.json''], File [CHR 0x22, CHR ''x'', CHR 0x22, CHR 0x0A]),
              ([''home'', ''db'', ''users'', ''Mary.json''], File [CHR 0x22, CHR ''y'', CHR 0x22, CHR 0x0A])],
     allocated = 1, trace = []\<rparr>"

text \<open>
  The stack of \<open>Clean\<close> holds proper components only, and no \<^verbatim>\<open>..\<close> when the path is
  rooted.
\<close>

definition clean_inv :: "bool \<Rightarrow> string list \<Rightarrow> bool" where
  "clean_inv rooted st =
     ((\<forall>c \<in> set st. c \<noteq> [] \<and> c \<noteq> ''.'' \<and> CHR ''/'' \<notin> set c) \<and> (rooted \<longrightarrow> ''..'' \<notin> set st))"

text \<open>
  Events that are calls to the file system only: \<open>fs_only w w'\<close> says that the trace of
  \<open>w'\<close> extends the trace of \<open>w\<close> by such events.
\<close>

definition fs_only :: "world \<Rightarrow> world \<Rightarrow> bool" where
  "fs_only w w' = (\<exists>evs. trace w' = trace w @ evs \<and> list_all is_fs_call evs)"

lemmas eval_defs =
  db_users_def users_world_def
  New_def Clean_def clean_step_def Join_def resolve_def norm_step_def emit_def node_at_def
  os_Stat_def os_MkdirAll_def ioutil_WriteFile_def os_Rename_def os_RemoveAll_def
  ioutil_ReadDir_def ioutil_ReadFile_def write_file_def rename_def remove_all_def
  read_dir_def read_file_def mode_of_def endsWithDot_def IsNotExist_def IsDir_def
  IsRegular_def stat_def getOrCreateMutex_def Write_def Write_locked_def ReadAll_def
  Delete_def Delete_locked_def Read_def string_codec_def is_space_def home_def db_def
  db_world_def AList.update.simps AList.delete_eq Let_def

lemma users_world_written:
  "(case Write string_codec db ''users'' ''John'' ''x'' db_world of (r1, d1, w1) \<Rightarrow>
     (case Write string_codec d1 ''users'' ''Mary'' ''y'' w1 of (r2, d2, w2) \<Rightarrow>
        (r1, r2, d2, w2\<lparr>trace := []\<rparr>))) = (None, None, db_users, users_world)"
  by (simp add: eval_defs)

lemma New_db: "New ''./db'' home = ((db, None), db_world\<lparr>trace := [Stat ''db'', MkdirAll ''db'']\<rparr>)"
  by (simp add: eval_defs)

section \<open>Paths\<close>

lemma split_sep_not_Nil [simp]: "split_sep s \<noteq> []"
  by (induction s) (auto split: list.splits)

lemma split_sep_append_sep:
  "split_sep (a @ CHR ''/'' # b) = split_sep a @ split_sep b"
proof (induction a)
  case Nil
  then show ?case by simp
next
  case (Cons c a)
  then show ?case by (cases "split_sep a") auto
qed

lemma split_sep_no_sep: "CHR ''/'' \<notin> set s \<Longrightarrow> split_sep s = [s]"
  by (induction s) auto

lemma split_sep_append_nosep:
  "CHR ''/'' \<notin> set t \<Longrightarrow> split_sep (s @ t) = butlast (split_sep s) @ [last (split_sep s) @ t]"
proof (induction s)
  case Nil
  then show ?case by (simp add: split_sep_no_sep)
next
  case (Cons c s)
  then show ?case by (cases "split_sep s") (auto split: list.splits)
qed

lemma split_sep_comps: "c \<in> set (split_sep s) \<Longrightarrow> CHR ''/'' \<notin> set c"
proof (induction s arbitrary: c)
  case Nil
  then show ?case by simp
next
  case (Cons x s)
  then show ?case by (cases "split_sep s") (auto split: if_splits)
qed

lemma split_join:
  "xs \<noteq> [] \<Longrightarrow> (\<And>c. c \<in> set xs \<Longrightarrow> CHR ''/'' \<notin> set c) \<Longrightarrow> split_sep (join_sep xs) = xs"
proof (induction xs rule: join_sep.induct)
  case 1
  then show ?case by simp
next
  case (2 x)
  then show ?case by (simp add: split_sep_no_sep)
next
  case (3 x y zs)
  then show ?case by (simp add: split_sep_append_sep split_sep_no_sep)
qed

lemma join_sep_snoc: "xs \<noteq> [] \<Longrightarrow> join_sep (xs @ [b]) = join_sep xs @ CHR ''/'' # b"
  by (induction xs rule: join_sep.induct) auto

lemma clean_inv_Cons:
  "clean_inv r (c # st) \<longleftrightarrow>
     c \<noteq> [] \<and> c \<noteq> ''.'' \<and> CHR ''/'' \<notin> set c \<and> (r \<longrightarrow> c \<noteq> ''..'') \<and> clean_inv r st"
  unfolding clean_inv_def by (simp only: set_simps ball_simps) blast

lemma dotdot_facts: "''..'' \<noteq> []" "''..'' \<noteq> ''.''" "CHR ''/'' \<notin> set ''..''"
  by simp_all

lemma clean_step_skip: "c = [] \<or> c = ''.'' \<Longrightarrow> clean_step r st c = st"
  by (simp add: clean_step_def)

lemma clean_step_push: "c \<noteq> [] \<Longrightarrow> c \<noteq> ''.'' \<Longrightarrow> c \<noteq> ''..'' \<Longrightarrow> clean_step r st c = c # st"
  by (simp add: clean_step_def)

lemma clean_step_dotdot_Nil: "clean_step r [] ''..'' = (if r then [] else [''..''])"
  by (simp add: clean_step_def)

lemma clean_step_dotdot_Cons:
  "clean_step r (t # ts) ''..'' = (if t = ''..'' then ''..'' # t # ts else ts)"
  by (simp add: clean_step_def)

lemma norm_step_dotdot_Nil: "norm_step [] ''..'' = []"
  by (simp add: norm_step_def)

lemma norm_step_dotdot_Cons: "norm_step (t # ts) ''..'' = ts"
  by (simp add: norm_step_def)

lemma norm_step_skip: "c = [] \<or> c = ''.'' \<Longrightarrow> norm_step st c = st"
  by (simp add: norm_step_def)

lemma norm_step_push: "c \<noteq> [] \<Longrightarrow> c \<noteq> ''.'' \<Longrightarrow> c \<noteq> ''..'' \<Longrightarrow> norm_step st c = c # st"
  by (simp add: norm_step_def)

lemma clean_step_inv:
  assumes inv: "clean_inv r st" and ns: "CHR ''/'' \<notin> set c"
  shows "clean_inv r (clean_step r st c)"
proof (cases "c = [] \<or> c = ''.''")
  case True
  then show ?thesis using inv by (simp add: clean_step_skip)
next
  case skip: False
  show ?thesis
  proof (cases "c = ''..''")
    case False
    have "clean_step r st c = c # st"
      using skip False by (simp add: clean_step_push)
    moreover have "clean_inv r (c # st)"
      unfolding clean_inv_Cons using skip False ns inv by blast
    ultimately show ?thesis by simp
  next
    case dd: True
    show ?thesis
    proof (cases st)
      case Nil
      have "clean_step r st c = (if r then [] else [''..''])"
        unfolding dd Nil by (rule clean_step_dotdot_Nil)
      moreover have "clean_inv r []" by (simp add: clean_inv_def)
      moreover have "\<not> r \<Longrightarrow> clean_inv r [''..'']"
        unfolding clean_inv_Cons using dotdot_facts \<open>clean_inv r []\<close> by blast
      ultimately show ?thesis by (cases r) simp_all
    next
      case (Cons t ts)
      have eq: "clean_step r st c = (if t = ''..'' then ''..'' # st else ts)"
        unfolding dd Cons by (rule clean_step_dotdot_Cons)
      have ts: "clean_inv r ts" and t: "r \<longrightarrow> t \<noteq> ''..''"
        using inv unfolding Cons clean_inv_Cons by blast+
      have "t = ''..'' \<Longrightarrow> clean_inv r (''..'' # st)"
        unfolding clean_inv_Cons [of r "''..''"] using dotdot_facts inv t by blast
      then show ?thesis using eq ts by (cases "t = ''..''") simp_all
    qed
  qed
qed

lemma clean_fold_inv:
  "clean_inv r st \<Longrightarrow> (\<And>c. c \<in> set xs \<Longrightarrow> CHR ''/'' \<notin> set c)
     \<Longrightarrow> clean_inv r (foldl (clean_step r) st xs)"
  by (induction xs arbitrary: st) (auto simp: clean_step_inv)

lemma norm_clean_step:
  assumes inv: "clean_inv r st" and base: "r \<longrightarrow> base = []"
  shows "foldl norm_step base (rev (clean_step r st c))
       = norm_step (foldl norm_step base (rev st)) c"
proof (cases "c = [] \<or> c = ''.''")
  case True
  then show ?thesis by (simp add: clean_step_skip norm_step_skip)
next
  case skip: False
  show ?thesis
  proof (cases "c = ''..''")
    case False
    with skip show ?thesis by (simp add: clean_step_push norm_step_push)
  next
    case dd: True
    show ?thesis
    proof (cases st)
      case Nil
      show ?thesis
      proof (cases r)
        case True
        with base have "base = []" by simp
        with True show ?thesis
          unfolding dd Nil by (simp add: clean_step_dotdot_Nil norm_step_dotdot_Nil)
      next
        case False
        then show ?thesis unfolding dd Nil by (simp add: clean_step_dotdot_Nil)
      qed
    next
      case (Cons t ts)
      have t: "t \<noteq> []" "t \<noteq> ''.''"
        using inv unfolding Cons clean_inv_Cons by blast+
      show ?thesis
      proof (cases "t = ''..''")
        case True
        then show ?thesis unfolding dd Cons by (simp add: clean_step_dotdot_Cons)
      next
        case False
        have "norm_step (foldl norm_step base (rev ts)) t = t # foldl norm_step base (rev ts)"
          using t False by (simp add: norm_step_push)
        then show ?thesis
          unfolding dd Cons using False by (simp add: clean_step_dotdot_Cons norm_step_dotdot_Cons)
      qed
    qed
  qed
qed

lemma norm_clean_fold:
  assumes "clean_inv r st" and "r \<longrightarrow> base = []" and "\<And>c. c \<in> set xs \<Longrightarrow> CHR ''/'' \<notin> set c"
  shows "foldl norm_step base (rev (foldl (clean_step r) st xs))
       = foldl norm_step (foldl norm_step base (rev st)) xs"
  using assms
proof (induction xs arbitrary: st)
  case Nil
  then show ?case by simp
next
  case (Cons c xs)
  have "clean_inv r (clean_step r st c)"
    using Cons.prems by (simp add: clean_step_inv)
  then have "foldl norm_step base (rev (foldl (clean_step r) (clean_step r st c) xs))
       = foldl norm_step (foldl norm_step base (rev (clean_step r st c))) xs"
    using Cons.prems by (intro Cons.IH) auto
  then show ?case
    using norm_clean_step [OF Cons.prems(1,2)] by simp
qed

lemma clean_inv_Nil: "clean_inv r []"
  by (simp add: clean_inv_def)

lemma clean_out_inv: "clean_inv r (foldl (clean_step r) [] (split_sep s))"
  by (rule clean_fold_inv [OF clean_inv_Nil]) (rule split_sep_comps)

lemma join_sep_not_Nil:
  "xs \<noteq> [] \<Longrightarrow> (\<And>c. c \<in> set xs \<Longrightarrow> c \<noteq> []) \<Longrightarrow> join_sep xs \<noteq> []"
  by (induction xs rule: join_sep.induct) auto

lemma hd_join_sep: "xs \<noteq> [] \<Longrightarrow> hd xs \<noteq> [] \<Longrightarrow> hd (join_sep xs) = hd (hd xs)"
  by (induction xs rule: join_sep.induct) auto

lemma Clean_not_Nil: "Clean s \<noteq> []"
proof -
  let ?r = "hd s = CHR ''/''"
  let ?st = "foldl (clean_step ?r) [] (split_sep s)"
  have inv: "clean_inv ?r ?st" by (rule clean_out_inv)
  have "?st \<noteq> [] \<Longrightarrow> join_sep (rev ?st) \<noteq> []"
    using inv by (intro join_sep_not_Nil) (auto simp: clean_inv_def)
  then show ?thesis by (auto simp: Clean_def Let_def)
qed

lemma norm_step_Nil [simp]: "norm_step st [] = st"
  by (simp add: norm_step_def)

lemma norm_step_dot [simp]: "norm_step st ''.'' = st"
  by (simp add: norm_step_def)

lemma resolve_Clean:
  assumes "s \<noteq> []"
  shows "resolve wd (Clean s) = resolve wd s"
proof -
  let ?r = "hd s = CHR ''/''"
  let ?st = "foldl (clean_step ?r) [] (split_sep s)"
  let ?out = "rev ?st"
  let ?base = "if ?r then [] else rev wd"
  have inv: "clean_inv ?r ?st" by (rule clean_out_inv)
  have comps: "\<And>c. c \<in> set ?out \<Longrightarrow> CHR ''/'' \<notin> set c"
    using inv by (auto simp: clean_inv_def)
  have key: "foldl norm_step ?base ?out = foldl norm_step ?base (split_sep s)"
    using norm_clean_fold [OF clean_inv_Nil, of ?r ?base "split_sep s"] split_sep_comps
    by auto
  show ?thesis
  proof (cases ?r)
    case True
    have "split_sep (CHR ''/'' # join_sep ?out) = [] # split_sep (join_sep ?out)" by simp
    moreover have "foldl norm_step [] (split_sep (join_sep ?out)) = foldl norm_step [] ?out"
    proof (cases "?out = []")
      case True
      then show ?thesis by (simp add: norm_step_def)
    next
      case False
      then show ?thesis using split_join [OF False comps] by simp
    qed
    ultimately show ?thesis
      using True assms key by (simp add: Clean_def Let_def resolve_def)
  next
    case False
    show ?thesis
    proof (cases "?out = []")
      case True
      then show ?thesis using False assms key
        by (simp add: Clean_def Let_def resolve_def norm_step_def)
    next
      case ne: False
      have hdne: "hd ?out \<noteq> []" and hdns: "CHR ''/'' \<notin> set (hd ?out)"
        using inv ne by (auto simp: clean_inv_def hd_rev dest: last_in_set)
      have "hd (join_sep ?out) = hd (hd ?out)" using ne hdne by (rule hd_join_sep)
      then have nr: "hd (join_sep ?out) \<noteq> CHR ''/''"
        using hdne hdns by (metis list.set_sel(1))
      have jn: "join_sep ?out \<noteq> []"
        using inv ne by (intro join_sep_not_Nil) (auto simp: clean_inv_def)
      show ?thesis using False assms key ne nr jn split_join [OF ne comps]
        by (simp add: Clean_def Let_def resolve_def)
    qed
  qed
qed

lemma plain_append: "plain n \<Longrightarrow> CHR ''/'' \<notin> set t \<Longrightarrow> plain (n @ t)"
  by (cases n; cases "tl n"; cases "tl (tl n)") (auto simp: plain_def)

lemma plain_json: "plain n \<Longrightarrow> plain (n @ ''.json'')"
  by (rule plain_append) simp_all

lemma norm_step_plain: "plain c \<Longrightarrow> norm_step st c = c # st"
  by (simp add: plain_def norm_step_push)

lemma clean_step_plain: "plain c \<Longrightarrow> clean_step r st c = c # st"
  by (simp add: plain_def clean_step_push)

lemma last_split_sep_snoc: "CHR ''/'' \<notin> set b \<Longrightarrow> last (split_sep (a @ CHR ''/'' # b)) = b"
  by (simp add: split_sep_append_sep split_sep_no_sep)

lemma last_split_suffix:
  "CHR ''/'' \<notin> set t \<Longrightarrow> last (split_sep (s @ t)) = last (split_sep s) @ t"
  by (simp add: split_sep_append_nosep)

lemma resolve_sep_snoc:
  assumes "a \<noteq> []" and "plain b"
  shows "resolve wd (a @ CHR ''/'' # b) = map_option (\<lambda>p. p @ [b]) (resolve wd a)"
proof -
  have "split_sep (a @ CHR ''/'' # b) = split_sep a @ [b]"
    using assms(2) by (simp add: split_sep_append_sep split_sep_no_sep plain_def)
  moreover have "hd (a @ CHR ''/'' # b) = hd a" using assms(1) by simp
  ultimately show ?thesis
    using assms by (simp add: resolve_def norm_step_plain)
qed

lemma resolve_sep_empty:
  assumes "a \<noteq> []"
  shows "resolve wd (a @ ''/'') = resolve wd a"
proof -
  have "split_sep (a @ ''/'') = split_sep a @ [[]]"
    using split_sep_append_sep [of a "[]"] by simp
  moreover have "hd (a @ ''/'') = hd a" using assms by simp
  ultimately show ?thesis using assms by (simp add: resolve_def)
qed

lemma resolve_suffix:
  assumes "s \<noteq> []" and "plain (last (split_sep s))" and "CHR ''/'' \<notin> set t"
  shows "resolve wd (s @ t) = map_option (\<lambda>p. butlast p @ [last p @ t]) (resolve wd s)"
proof -
  let ?n = "last (split_sep s)"
  have a: "split_sep s = butlast (split_sep s) @ [?n]" by simp
  have b: "split_sep (s @ t) = butlast (split_sep s) @ [?n @ t]"
    using assms(3) by (rule split_sep_append_nosep)
  have c: "plain (?n @ t)" using assms(2,3) by (rule plain_append)
  have "hd (s @ t) = hd s" using assms(1) by simp
  moreover have "foldl norm_step base (split_sep s)
      = ?n # foldl norm_step base (butlast (split_sep s))" for base
    by (subst a) (simp add: norm_step_plain [OF assms(2)] del: append_butlast_last_id)
  moreover have "foldl norm_step base (split_sep (s @ t))
      = (?n @ t) # foldl norm_step base (butlast (split_sep s))" for base
    by (subst b) (simp add: norm_step_plain [OF c])
  ultimately show ?thesis using assms(1) by (simp add: resolve_def)
qed

lemma last_split_Clean:
  assumes "s \<noteq> []" and "plain (last (split_sep s))"
  shows "last (split_sep (Clean s)) = last (split_sep s)"
proof -
  let ?r = "hd s = CHR ''/''"
  let ?n = "last (split_sep s)"
  let ?st' = "foldl (clean_step ?r) [] (butlast (split_sep s))"
  let ?st = "foldl (clean_step ?r) [] (split_sep s)"
  have "split_sep s = butlast (split_sep s) @ [?n]" by simp
  then have "?st = clean_step ?r ?st' ?n"
    by (metis foldl_Cons foldl_Nil foldl_append)
  then have st: "?st = ?n # ?st'" using assms(2) by (simp add: clean_step_plain)
  have inv: "clean_inv ?r ?st" by (rule clean_out_inv)
  have comps: "\<And>c. c \<in> set (rev ?st) \<Longrightarrow> CHR ''/'' \<notin> set c"
    using inv by (auto simp: clean_inv_def)
  have ne: "rev ?st \<noteq> []" using st by simp
  have sj: "split_sep (join_sep (rev ?st)) = rev ?st"
    using split_join [OF ne comps] by simp
  have l: "last (rev ?st) = ?n" using st by simp
  show ?thesis
  proof (cases ?r)
    case True
    then have "Clean s = CHR ''/'' # join_sep (rev ?st)"
      using assms(1) by (simp add: Clean_def Let_def)
    then show ?thesis using sj l ne by simp
  next
    case False
    then have "Clean s = join_sep (rev ?st)"
      using assms(1) ne by (simp add: Clean_def Let_def)
    then show ?thesis using sj l by simp
  qed
qed

lemma Clean_trailing_slash:
  assumes "s \<noteq> []"
  shows "Clean (s @ ''/'') = Clean s"
proof -
  have "split_sep (s @ ''/'') = split_sep s @ [[]]"
    using split_sep_append_sep [of s "[]"] by simp
  moreover have "hd (s @ ''/'') = hd s" using assms by simp
  ultimately show ?thesis using assms by (simp add: Clean_def Let_def clean_step_skip)
qed

lemma Join2: "a \<noteq> [] \<Longrightarrow> Join [a, b] = Clean (a @ CHR ''/'' # b)"
  by (simp add: Join_def)

lemma Join3: "a \<noteq> [] \<Longrightarrow> Join [a, b, c] = Clean (a @ CHR ''/'' # b @ CHR ''/'' # c)"
  by (simp add: Join_def)

lemma Join_empty: "Join [[], []] = []"
  by (simp add: Join_def)

lemma plain_hd: "plain C \<Longrightarrow> C \<noteq> [] \<and> hd C \<noteq> CHR ''/''"
  by (cases C) (auto simp: plain_def)

lemma Clean_plain2:
  assumes "plain C" and "plain R"
  shows "Clean (C @ CHR ''/'' # R) = C @ CHR ''/'' # R"
proof -
  have "split_sep (C @ CHR ''/'' # R) = [C, R]"
    using assms by (simp add: split_sep_append_sep split_sep_no_sep plain_def)
  moreover have "hd (C @ CHR ''/'' # R) \<noteq> CHR ''/''" using plain_hd [OF assms(1)] by simp
  ultimately show ?thesis
    using assms by (simp add: Clean_def Let_def clean_step_plain)
qed

lemma Clean_plain_slash:
  assumes "plain C"
  shows "Clean (C @ ''/'') = C"
proof -
  have "split_sep (C @ ''/'') = [C, []]"
    using assms split_sep_append_sep [of C "[]"] by (simp add: split_sep_no_sep plain_def)
  moreover have "hd (C @ ''/'') \<noteq> CHR ''/''" using plain_hd [OF assms(1)] by simp
  ultimately show ?thesis
    using assms by (simp add: Clean_def Let_def clean_step_plain clean_step_skip)
qed

lemma endsWithDot_last:
  assumes "endsWithDot s"
  shows "last (split_sep s) = ''.''"
proof (cases "s = ''.''")
  case True
  then show ?thesis by simp
next
  case False
  with assms have l: "length s \<ge> 2" "last s = CHR ''.''" "last (butlast s) = CHR ''/''"
    by (auto simp: endsWithDot_def)
  have ne: "s \<noteq> []" using l(1) by auto
  have ne2: "butlast s \<noteq> []" using l(1) by (cases s; cases "tl s") auto
  have "s = butlast s @ [last s]" using ne by simp
  also have "butlast s = butlast (butlast s) @ [last (butlast s)]" using ne2 by simp
  finally have "s = butlast (butlast s) @ CHR ''/'' # ''.''"
    using l(2,3) by simp
  then have "last (split_sep s) = last (split_sep (butlast (butlast s) @ CHR ''/'' # ''.''))"
    by simp
  also have "\<dots> = ''.''" by (rule last_split_sep_snoc) simp
  finally show ?thesis .
qed

lemma resolve_Some_ne: "resolve wd a = Some p \<Longrightarrow> a \<noteq> []"
  by (auto simp: resolve_def)

lemma Clean_snoc:
  assumes "resolve wd a = Some p" and "plain b"
  shows "resolve wd (Clean (a @ CHR ''/'' # b)) = Some (p @ [b])"
    and "last (split_sep (Clean (a @ CHR ''/'' # b))) = b"
    and "Clean (a @ CHR ''/'' # b) \<noteq> []"
proof -
  have ne: "a \<noteq> []" using assms(1) by (rule resolve_Some_ne)
  have ns: "CHR ''/'' \<notin> set b" using assms(2) by (simp add: plain_def)
  show "resolve wd (Clean (a @ CHR ''/'' # b)) = Some (p @ [b])"
    using resolve_Clean [of "a @ CHR ''/'' # b" wd] resolve_sep_snoc [OF ne assms(2), of wd] assms(1)
    by simp
  have l: "last (split_sep (a @ CHR ''/'' # b)) = b" using ns by (rule last_split_sep_snoc)
  show "last (split_sep (Clean (a @ CHR ''/'' # b))) = b"
    using last_split_Clean [of "a @ CHR ''/'' # b"] l assms(2) by simp
  show "Clean (a @ CHR ''/'' # b) \<noteq> []" by (rule Clean_not_Nil)
qed

lemma suffix_resolve:
  assumes "resolve wd s = Some (p @ [b])" and "last (split_sep s) = b" and "plain b"
    and "CHR ''/'' \<notin> set t"
  shows "resolve wd (s @ t) = Some (p @ [b @ t])"
  using resolve_suffix [of s t wd] assms resolve_Some_ne [OF assms(1)] by simp

lemma path_collection:
  assumes "resolve wd a = Some root" and "plain C"
  shows "resolve wd (Join [a, C]) = Some (root @ [C])"
    and "last (split_sep (Join [a, C])) = C"
    and "Join [a, C] \<noteq> []"
  using Clean_snoc [OF assms] resolve_Some_ne [OF assms(1)] by (simp_all add: Join2)


lemma path_record:
  assumes "resolve wd a = Some root" and "plain C" and "plain R"
  shows "resolve wd (Join [a, C, R @ ''.json'']) = Some (root @ [C, R @ ''.json''])"
    and "resolve wd (Join [a, C, R @ ''.json''] @ ''.json'')
           = Some (root @ [C, R @ ''.json.json''])"
proof -
  have ne: "a \<noteq> []" using assms(1) by (rule resolve_Some_ne)
  have pj: "plain (R @ ''.json'')" using assms(3) by (rule plain_json)
  have c: "resolve wd (a @ CHR ''/'' # C) = Some (root @ [C])"
    using resolve_sep_snoc [OF ne assms(2), of wd] assms(1) by simp
  have j: "Join [a, C, R @ ''.json''] = Clean ((a @ CHR ''/'' # C) @ CHR ''/'' # R @ ''.json'')"
    using ne by (simp add: Join3)
  note f = Clean_snoc [OF c pj]
  show "resolve wd (Join [a, C, R @ ''.json'']) = Some (root @ [C, R @ ''.json''])"
    using f(1) j by simp
  have "resolve wd (Clean ((a @ CHR ''/'' # C) @ CHR ''/'' # R @ ''.json'') @ ''.json'')
      = Some ((root @ [C]) @ [(R @ ''.json'') @ ''.json''])"
    by (rule suffix_resolve [OF f(1) f(2) pj]) simp
  then show "resolve wd (Join [a, C, R @ ''.json''] @ ''.json'')
           = Some (root @ [C, R @ ''.json.json''])"
    using j by simp
qed

lemma path_delete:
  assumes "resolve wd a = Some root" and "plain C" and "plain R"
  shows "resolve wd (Join [a, Join [C, R]]) = Some (root @ [C, R])"
    and "resolve wd (Join [a, Join [C, R]] @ ''.json'') = Some (root @ [C, R @ ''.json''])"
    and "\<not> endsWithDot (Join [a, Join [C, R]] @ ''.json'')"
    and "Join [a, Join [C, R]] @ ''.json'' \<noteq> []"
proof -
  have ne: "a \<noteq> []" using assms(1) by (rule resolve_Some_ne)
  have cne: "C \<noteq> []" using assms(2) by (simp add: plain_def)
  have c: "resolve wd (a @ CHR ''/'' # C) = Some (root @ [C])"
    using resolve_sep_snoc [OF ne assms(2), of wd] assms(1) by simp
  have jj: "Join [C, R] = C @ CHR ''/'' # R"
    using cne Clean_plain2 [OF assms(2,3)] by (simp add: Join2)
  have j: "Join [a, Join [C, R]] = Clean ((a @ CHR ''/'' # C) @ CHR ''/'' # R)"
    using ne jj by (simp add: Join2)
  note f = Clean_snoc [OF c assms(3)]
  show "resolve wd (Join [a, Join [C, R]]) = Some (root @ [C, R])"
    using f(1) j by simp
  have "resolve wd (Clean ((a @ CHR ''/'' # C) @ CHR ''/'' # R) @ ''.json'')
      = Some ((root @ [C]) @ [R @ ''.json''])"
    by (rule suffix_resolve [OF f(1) f(2) assms(3)]) simp
  then show "resolve wd (Join [a, Join [C, R]] @ ''.json'') = Some (root @ [C, R @ ''.json''])"
    using j by simp
  have "last (split_sep (Join [a, Join [C, R]] @ ''.json'')) = R @ ''.json''"
    using f(2) j by (simp add: last_split_suffix)
  moreover have "R @ ''.json'' \<noteq> ''.''" by (cases R) auto
  ultimately show "\<not> endsWithDot (Join [a, Join [C, R]] @ ''.json'')"
    using endsWithDot_last by fastforce
  show "Join [a, Join [C, R]] @ ''.json'' \<noteq> []" by simp
qed

lemma path_delete_collection:
  assumes "resolve wd a = Some root" and "plain C"
  shows "Join [C, []] = C"
    and "resolve wd (Join [a, Join [C, []]]) = Some (root @ [C])"
    and "resolve wd (Join [a, Join [C, []]] @ ''.json'') = Some (root @ [C @ ''.json''])"
    and "\<not> endsWithDot (Join [a, Join [C, []]])"
    and "Join [a, Join [C, []]] = Join [a, C]"
proof -
  have cne: "C \<noteq> []" using assms(2) by (simp add: plain_def)
  show jj: "Join [C, []] = C"
    using cne Clean_plain_slash [OF assms(2)] by (simp add: Join2)
  note c = path_collection [OF assms]
  show "resolve wd (Join [a, Join [C, []]]) = Some (root @ [C])" using c(1) jj by simp
  have "resolve wd (Join [a, C] @ ''.json'') = Some (root @ [C @ ''.json''])"
    by (rule suffix_resolve [OF c(1) c(2) assms(2)]) simp
  then show "resolve wd (Join [a, Join [C, []]] @ ''.json'') = Some (root @ [C @ ''.json''])"
    using jj by simp
  have "C \<noteq> ''.''" using assms(2) by (simp add: plain_def)
  then show "\<not> endsWithDot (Join [a, Join [C, []]])"
    using endsWithDot_last [of "Join [a, C]"] c(2) jj by auto
  show "Join [a, Join [C, []]] = Join [a, C]" using jj by simp
qed

lemma path_root:
  assumes "resolve wd a = Some root" and "plain (last (split_sep a))"
  shows "Join [a, Join [[], []]] = Clean a"
    and "resolve wd (Clean a) = Some root"
    and "\<not> endsWithDot (Clean a)"
    and "Clean a \<noteq> []"
    and "root \<noteq> []"
proof -
  have ne: "a \<noteq> []" using assms(1) by (rule resolve_Some_ne)
  show "Join [a, Join [[], []]] = Clean a"
    using ne Clean_trailing_slash [OF ne] by (simp add: Join2 Join_empty)
  show "resolve wd (Clean a) = Some root" using resolve_Clean [OF ne] assms(1) by simp
  have l: "last (split_sep (Clean a)) = last (split_sep a)"
    using ne assms(2) by (rule last_split_Clean)
  have "last (split_sep a) \<noteq> ''.''" using assms(2) by (simp add: plain_def)
  then show "\<not> endsWithDot (Clean a)" using endsWithDot_last [of "Clean a"] l by auto
  show "Clean a \<noteq> []" by (rule Clean_not_Nil)
  let ?n = "last (split_sep a)"
  have sp: "split_sep a = butlast (split_sep a) @ [?n]" by simp
  have "foldl norm_step base (butlast (split_sep a) @ [?n])
      = ?n # foldl norm_step base (butlast (split_sep a))" for base
    by (simp only: foldl_append foldl_Cons foldl_Nil norm_step_plain [OF assms(2)])
  then have f: "foldl norm_step base (split_sep a) \<noteq> []" for base
    using sp by (metis list.distinct(1))
  have "root = rev (foldl norm_step (if hd a = CHR ''/'' then [] else rev wd) (split_sep a))"
    using assms(1) ne by (simp add: resolve_def)
  then show "root \<noteq> []" using f by simp
qed

section \<open>File-system calls\<close>

lemma node_at_Nil [simp]: "node_at fs [] = Some Dir"
  by (simp add: node_at_def)



lemma map_of_filter_key:
  "map_of (filter (\<lambda>(k, n). P k) fs) q = (if P q then map_of fs q else None)"
  by (induction fs) auto

lemma node_at_remove:
  "p \<noteq> [] \<Longrightarrow> node_at (filter (\<lambda>(k, n). \<not> prefix p k) fs) q
     = (if prefix p q then None else node_at fs q)"
  using map_of_filter_key [of "\<lambda>k. \<not> prefix p k" fs q] by (auto simp: node_at_def)

lemma walk_snoc:
  "walk fs pre (xs @ [c]) =
     (case walk fs pre xs of
        Inl e \<Rightarrow> Inl e
      | Inr (File x) \<Rightarrow> Inl ENOTDIR
      | Inr Dir \<Rightarrow> (case node_at fs (pre @ xs @ [c]) of None \<Rightarrow> Inl ENOENT | Some n \<Rightarrow> Inr n))"
  by (induction xs arbitrary: pre) (auto split: option.splits node.splits sum.splits)


lemma walk_cong:
  assumes "\<And>q. prefix pre q \<Longrightarrow> prefix q (pre @ xs) \<Longrightarrow> node_at fs' q = node_at fs q"
  shows "walk fs' pre xs = walk fs pre xs"
  using assms
proof (induction xs arbitrary: pre)
  case Nil
  then show ?case by simp
next
  case (Cons c xs)
  have a: "node_at fs' pre = node_at fs pre" using Cons.prems [of pre] by simp
  have "walk fs' (pre @ [c]) xs = walk fs (pre @ [c]) xs"
  proof (rule Cons.IH)
    fix q assume "prefix (pre @ [c]) q" "prefix q ((pre @ [c]) @ xs)"
    then show "node_at fs' q = node_at fs q"
      using Cons.prems [of q] by (auto dest: append_prefixD)
  qed
  then show ?case using a by (simp split: option.splits node.splits)
qed

lemma walk_cong0:
  "(\<And>q. prefix q p \<Longrightarrow> node_at fs' q = node_at fs q) \<Longrightarrow> walk fs' [] p = walk fs [] p"
  by (rule walk_cong) simp







lemma mkdir_all_error: "mkdir_all fs pre cs = Inl e \<Longrightarrow> e = ENOTDIR"
  by (induction cs arbitrary: fs pre) (auto split: option.splits node.splits)


lemma mkdir_all_existing:
  assumes "walk fs [] p = Inr Dir"
  shows "mkdir_all fs [] p = Inr fs"
proof -
  have "walk fs pre cs = Inr Dir \<Longrightarrow> mkdir_all fs pre cs = Inr fs" for pre cs
  proof (induction cs arbitrary: pre)
    case Nil
    then show ?case by simp
  next
    case (Cons c cs)
    from Cons.prems have w: "walk fs (pre @ [c]) cs = Inr Dir"
      by (auto split: option.splits node.splits)
    have "node_at fs (pre @ [c]) = Some Dir"
    proof (cases cs)
      case Nil
      with w show ?thesis by (auto split: option.splits)
    next
      case (Cons a list)
      with w show ?thesis by (auto split: option.splits node.splits)
    qed
    then show ?case using Cons.IH [OF w] by simp
  qed
  then show ?thesis using assms by blast
qed

section \<open>Write\<close>

lemma walk_child:
  assumes "walk fs [] cdir = Inr Dir"
  shows "walk fs [] (cdir @ [x]) = (case node_at fs (cdir @ [x]) of None \<Rightarrow> Inl ENOENT | Some n \<Rightarrow> Inr n)"
  using assms walk_snoc [of fs "[]" cdir x] by simp





lemma getOrCreateMutex_world:
  assumes "getOrCreateMutex d C w = (m, d1, w1)"
  shows "dir d1 = dir d" and "cwd w1 = cwd w" and "files w1 = files w"
    and "trace w1 = trace w @ [MuLock, MuUnlock]"
  using assms by (auto simp: getOrCreateMutex_def Let_def emit_def split: option.splits)




lemma plain_users: "plain ''users''" and plain_John: "plain ''John''"
  by (simp_all add: plain_def)


lemma Write_John:
  "Write string_codec db ''users'' ''John'' ''x'' db_world =
     (None, db\<lparr>mutexes := [''users'' \<mapsto> 0]\<rparr>,
      db_world\<lparr>files := [([''home''], Dir), ([''home'', ''db''], Dir),
                 ([''home'', ''db'', ''users''], Dir),
                 ([''home'', ''db'', ''users'', ''John.json''],
                  File [CHR 0x22, CHR ''x'', CHR 0x22, CHR 0x0A])],
               allocated := 1,
               trace := [MuLock, MuUnlock, MutexLock 0, MkdirAll ''db/users'',
                 WriteFile ''db/users/John.json.tmp'' [CHR 0x22, CHR ''x'', CHR 0x22, CHR 0x0A],
                 Rename ''db/users/John.json.tmp'' ''db/users/John.json'', MutexUnlock 0]\<rparr>)"
  by (simp add: eval_defs)






text \<open>
  C1 fails on the code. On a fresh store, \<open>Write\<close> of the resource John succeeds and puts
  the file \<^verbatim>\<open>db/users/John.json\<close> in place; the \<open>Read\<close> of the same resource that follows
  probes \<^verbatim>\<open>db/users/John.json\<close>, then opens \<^verbatim>\<open>db/users/John.json.json\<close>, which does not
  exist: it returns \<^verbatim>\<open>ENOENT\<close> and leaves the target as it was.
\<close>

theorem Write_then_Read_not_found:
  "(case Write string_codec db ''users'' ''John'' ''x'' db_world of
      (r, d1, w1) \<Rightarrow>
        (r, walk (files w1) [] [''home'', ''db'', ''users'', ''John.json''],
         fst (Read string_codec d1 ''users'' ''John'' ''old'' w1),
         drop (length (trace w1)) (trace (snd (Read string_codec d1 ''users'' ''John'' ''old'' w1)))))
   = (None, Inr (File [CHR 0x22, CHR ''x'', CHR 0x22, CHR 0x0A]),
      (Some (PathError ENOENT), ''old''),
      [Stat ''db/users/John.json'', ReadFile ''db/users/John.json.json''])"
  unfolding Write_John by (simp add: eval_defs)

section \<open>Delete\<close>

lemma walk_parent: "walk fs [] (xs @ [c]) = Inr n \<Longrightarrow> walk fs [] xs = Inr Dir"
  using walk_snoc [of fs "[]" xs c] by (auto split: sum.splits node.splits)

lemma walk_butlast: "p \<noteq> [] \<Longrightarrow> walk fs [] p = Inr n \<Longrightarrow> walk fs [] (butlast p) = Inr Dir"
  using walk_parent [of fs "butlast p" "last p" n] by simp

lemma stat_found:
  assumes "resolve (cwd w) path = Some p" and "walk (files w) [] p = Inr n"
  shows "stat path w = (Inr (mode_of n), emit (Stat path) w)"
  using assms by (simp add: stat_def os_Stat_def)

lemma stat_fallback:
  assumes "resolve (cwd w) path = Some p" and "walk (files w) [] p = Inl ENOENT"
    and "resolve (cwd w) (path @ ''.json'') = Some pj"
  shows "stat path w =
     ((case walk (files w) [] pj of Inl e \<Rightarrow> Inl e | Inr n \<Rightarrow> Inr (mode_of n)),
      emit (Stat (path @ ''.json'')) (emit (Stat path) w))"
  using assms by (simp add: stat_def os_Stat_def IsNotExist_def emit_def)

lemma remove_all_entry:
  assumes "p \<noteq> []" and "walk fs [] (butlast p) = Inr Dir"
  shows "remove_all fs p = (None, filter (\<lambda>(k, n). \<not> prefix p k) fs)"
  using assms by (simp add: remove_all_def)

lemma os_RemoveAll_entry:
  assumes "path \<noteq> []" and "\<not> endsWithDot path" and "resolve (cwd w) path = Some p"
    and "p \<noteq> []" and "walk (files w) [] (butlast p) = Inr Dir"
  shows "os_RemoveAll path w =
     (None, w\<lparr>files := filter (\<lambda>(k, n). \<not> prefix p k) (files w),
              trace := trace w @ [RemoveAll path]\<rparr>)"
  using assms by (simp add: os_RemoveAll_def Let_def remove_all_entry emit_def)

lemma Delete_unfold:
  assumes "getOrCreateMutex d C w = (m, d1, w1)"
    and "Delete_locked d1 (Join [C, R]) (emit (MutexLock m) w1) = (r, w2)"
  shows "Delete d C R w = (r, d1, emit (MutexUnlock m) w2)"
  using assms by (simp add: Delete_def)

lemma emit_fields [simp]:
  "cwd (emit e w) = cwd w" "files (emit e w) = files w" "allocated (emit e w) = allocated w"
  "trace (emit e w) = trace w @ [e]"
  by (simp_all add: emit_def)

text \<open>Removing a resource by its bare name.\<close>

lemma Delete_locked_resource:
  assumes r: "resolve (cwd w) (dir d) = Some root" and C: "plain C" and R: "plain R"
    and f: "walk (files w) [] (root @ [C, R @ ''.json'']) = Inr (File data)"
    and nd: "node_at (files w) (root @ [C, R]) \<noteq> Some Dir"
    and D: "Delete_locked d (Join [C, R]) w = (res, w')"
  shows "res = None \<and> cwd w' = cwd w
     \<and> files w' = filter (\<lambda>(k, n). \<not> prefix (root @ [C, R @ ''.json'']) k) (files w)"
proof -
  note pd = path_delete [OF r C R]
  let ?dirS = "Join [dir d, Join [C, R]]"
  let ?cdir = "root @ [C]"
  have wc: "walk (files w) [] ?cdir = Inr Dir"
    using walk_parent [of "files w" ?cdir "R @ ''.json''"] f by simp
  have wp: "walk (files w) [] (?cdir @ [R]) =
      (case node_at (files w) (?cdir @ [R]) of None \<Rightarrow> Inl ENOENT | Some n \<Rightarrow> Inr n)"
    using wc by (rule walk_child)
  have st: "\<exists>w1. stat ?dirS w = (Inr ModeRegular, w1) \<and> cwd w1 = cwd w \<and> files w1 = files w"
  proof (cases "node_at (files w) (?cdir @ [R])")
    case None
    then have "walk (files w) [] (root @ [C, R]) = Inl ENOENT" using wp by simp
    from stat_fallback [OF pd(1) this pd(2)] f show ?thesis by (simp add: mode_of_def)
  next
    case (Some n)
    then obtain x where "n = File x" using nd by (cases n) auto
    then have "walk (files w) [] (root @ [C, R]) = Inr (File x)" using wp Some by simp
    from stat_found [OF pd(1) this] show ?thesis by (simp add: mode_of_def)
  qed
  then obtain w1 where s: "stat ?dirS w = (Inr ModeRegular, w1)"
    and w1: "cwd w1 = cwd w" "files w1 = files w" by blast
  have bl: "walk (files w1) [] (butlast (root @ [C, R @ ''.json''])) = Inr Dir"
    using wc w1 by (simp add: butlast_append)
  have "os_RemoveAll (?dirS @ ''.json'') w1 =
     (None, w1\<lparr>files := filter (\<lambda>(k, n). \<not> prefix (root @ [C, R @ ''.json'']) k) (files w1),
              trace := trace w1 @ [RemoveAll (?dirS @ ''.json'')]\<rparr>)"
    using pd w1 bl by (intro os_RemoveAll_entry) simp_all
  then show ?thesis
    using D s w1 by (auto simp: Delete_locked_def Let_def IsDir_def IsRegular_def)
qed

text \<open>Removing a directory: a collection, or the root itself.\<close>

lemma Delete_locked_directory:
  assumes p: "resolve (cwd w) (Join [dir d, path]) = Some p" and ne: "p \<noteq> []"
    and nd: "\<not> endsWithDot (Join [dir d, path])"
    and f: "walk (files w) [] p = Inr Dir"
    and D: "Delete_locked d path w = (res, w')"
  shows "res = None \<and> cwd w' = cwd w
     \<and> files w' = filter (\<lambda>(k, n). \<not> prefix p k) (files w)
     \<and> trace w' = trace w @ [Stat (Join [dir d, path]), RemoveAll (Join [dir d, path])]"
proof -
  let ?dirS = "Join [dir d, path]"
  have s: "stat ?dirS w = (Inr ModeDir, emit (Stat ?dirS) w)"
    using stat_found [OF p f] by (simp add: mode_of_def)
  have dne: "?dirS \<noteq> []" using p by (rule resolve_Some_ne)
  have bl: "walk (files (emit (Stat ?dirS) w)) [] (butlast p) = Inr Dir"
    using walk_butlast [OF ne f] by simp
  have "os_RemoveAll ?dirS (emit (Stat ?dirS) w) =
     (None, (emit (Stat ?dirS) w)\<lparr>files := filter (\<lambda>(k, n). \<not> prefix p k) (files (emit (Stat ?dirS) w)),
              trace := trace (emit (Stat ?dirS) w) @ [RemoveAll ?dirS]\<rparr>)"
    using dne nd p ne bl by (intro os_RemoveAll_entry) simp_all
  then show ?thesis
    using D s by (auto simp: Delete_locked_def Let_def IsDir_def)
qed

lemma removed_nodes:
  assumes "p \<noteq> []" and "files w' = filter (\<lambda>(k, n). \<not> prefix p k) (files w)"
  shows "node_at (files w') q = (if prefix p q then None else node_at (files w) q)"
  using assms node_at_remove [of p "files w" q] by simp

lemma removed_walk:
  assumes "p \<noteq> []" and "files w' = filter (\<lambda>(k, n). \<not> prefix p k) (files w)"
    and "\<not> prefix p q"
  shows "walk (files w') [] q = walk (files w) [] q"
proof (rule walk_cong0)
  fix q' assume "prefix q' q"
  with assms(3) have "\<not> prefix p q'" using prefix_order.trans by blast
  then show "node_at (files w') q' = node_at (files w) q'"
    using removed_nodes [OF assms(1,2)] by simp
qed

text \<open>
  A resource named bare. In a store at \<open>root\<close>, for proper names \<open>C\<close> and \<open>R\<close> where the
  file of resource \<open>R\<close> exists and \<open>C\<close> holds no directory named \<open>R\<close>: \<open>Delete\<close> with the
  bare name \<open>R\<close> succeeds and removes the entry \<^verbatim>\<open>root/C/R.json\<close>; every other entry of
  the file system is as before, and the file of every other resource of \<open>C\<close> reads as
  before.
\<close>

lemma Delete_removes_only_the_resource:
  assumes r: "resolve (cwd w) (dir d) = Some root" and C: "plain C" and R: "plain R"
    and f: "walk (files w) [] (root @ [C, R @ ''.json'']) = Inr (File data)"
    and nd: "node_at (files w) (root @ [C, R]) \<noteq> Some Dir"
    and D: "Delete d C R w = (res, d', w')"
  shows "res = None
     \<and> (\<forall>q. node_at (files w') q =
            (if prefix (root @ [C, R @ ''.json'']) q then None else node_at (files w) q))
     \<and> (\<forall>S. S \<noteq> R \<longrightarrow>
            walk (files w') [] (root @ [C, S @ ''.json''])
              = walk (files w) [] (root @ [C, S @ ''.json'']))"
proof -
  obtain m d1 w1 where g: "getOrCreateMutex d C w = (m, d1, w1)"
    by (cases "getOrCreateMutex d C w") auto
  note gw = getOrCreateMutex_world [OF g]
  let ?w2 = "emit (MutexLock m) w1"
  obtain r2 w3 where b: "Delete_locked d1 (Join [C, R]) ?w2 = (r2, w3)"
    by (cases "Delete_locked d1 (Join [C, R]) ?w2") auto
  have eq: "res = r2" "w' = emit (MutexUnlock m) w3"
    using Delete_unfold [OF g b] D by simp_all
  have "r2 = None \<and> cwd w3 = cwd ?w2
     \<and> files w3 = filter (\<lambda>(k, n). \<not> prefix (root @ [C, R @ ''.json'']) k) (files ?w2)"
    using r C R f nd gw by (intro Delete_locked_resource [OF _ _ _ _ _ b]) simp_all
  then have res: "res = None"
    and fl: "files w' = filter (\<lambda>(k, n). \<not> prefix (root @ [C, R @ ''.json'']) k) (files w)"
    using eq gw by simp_all
  have ne: "root @ [C, R @ ''.json''] \<noteq> []" by simp
  have sib: "walk (files w') [] (root @ [C, S @ ''.json''])
              = walk (files w) [] (root @ [C, S @ ''.json''])" if "S \<noteq> R" for S
    using that by (intro removed_walk [OF ne fl]) simp
  show ?thesis using res removed_nodes [OF ne fl] sib by blast
qed

lemma Delete_removes_only_the_resource_example:
  "fst (Delete db_users ''users'' ''John'' users_world) = None
   \<and> walk (files (snd (snd (Delete db_users ''users'' ''John'' users_world)))) []
        [''home'', ''db'', ''users'', ''John.json''] = Inl ENOENT
   \<and> walk (files (snd (snd (Delete db_users ''users'' ''John'' users_world)))) []
        [''home'', ''db'', ''users'', ''Mary.json'']
      = Inr (File [CHR 0x22, CHR ''y'', CHR 0x22, CHR 0x0A])"
proof -
  obtain res d' w' where D: "Delete db_users ''users'' ''John'' users_world = (res, d', w')"
    by (cases "Delete db_users ''users'' ''John'' users_world") auto
  have r: "resolve (cwd users_world) (dir db_users) = Some [''home'', ''db'']"
    by (simp add: eval_defs)
  have f: "walk (files users_world) [] ([''home'', ''db''] @ [''users'', ''John'' @ ''.json''])
      = Inr (File [CHR 0x22, CHR ''x'', CHR 0x22, CHR 0x0A])"
    by (simp add: users_world_def node_at_def)
  have nd: "node_at (files users_world) ([''home'', ''db''] @ [''users'', ''John'']) \<noteq> Some Dir"
    by (simp add: users_world_def node_at_def)
  note t = Delete_removes_only_the_resource [OF r plain_users plain_John f nd D]
  have a: "res = None" using t by blast
  have b: "walk (files (snd (snd (Delete db_users ''users'' ''John'' users_world)))) []
        [''home'', ''db'', ''users'', ''John.json''] = Inl ENOENT
   \<and> walk (files (snd (snd (Delete db_users ''users'' ''John'' users_world)))) []
        [''home'', ''db'', ''users'', ''Mary.json'']
      = Inr (File [CHR 0x22, CHR ''y'', CHR 0x22, CHR 0x0A])"
    by (simp add: eval_defs)
  show ?thesis using a b D by simp
qed

text \<open>
  C3 fails on the code for a name given with its extension. The store holds the
  resources John and Mary of the collection users. \<open>Delete\<close> of \<^verbatim>\<open>John.json\<close> probes
  \<^verbatim>\<open>db/users/John.json\<close>, finds the regular file itself, and then removes the probed path
  with \<^verbatim>\<open>.json\<close> appended, \<^verbatim>\<open>db/users/John.json.json\<close>, which does not exist. It
  reports success, and the file of the resource John is still there.
\<close>

theorem Delete_with_extension_removes_nothing:
  "fst (Delete db_users ''users'' ''John.json'' users_world) = None
   \<and> files (snd (snd (Delete db_users ''users'' ''John.json'' users_world))) = files users_world
   \<and> walk (files users_world) [] [''home'', ''db'', ''users'', ''John.json'']
      = Inr (File [CHR 0x22, CHR ''x'', CHR 0x22, CHR 0x0A])
   \<and> trace (snd (snd (Delete db_users ''users'' ''John.json'' users_world)))
      = [MuLock, MuUnlock, MutexLock 0, Stat ''db/users/John.json'',
         RemoveAll ''db/users/John.json.json'', MutexUnlock 0]"
  by (simp add: eval_defs)

lemma ReadAll_missing:
  assumes r: "resolve (cwd w) (dir d) = Some root" and C: "plain C"
    and wr: "walk (files w) [] root = Inr Dir"
    and nn: "node_at (files w) (root @ [C]) = None"
  shows "fst (ReadAll d C w) = Inl (PathError ENOENT)"
proof -
  note pc = path_collection [OF r C]
  let ?dirS = "Join [dir d, C]"
  have cne: "C \<noteq> []" using C by (simp add: plain_def)
  have w1: "walk (files w) [] (root @ [C]) = Inl ENOENT"
    using walk_child [OF wr, of C] nn by simp
  have pj: "resolve (cwd w) (?dirS @ ''.json'') = Some (root @ [C @ ''.json''])"
    by (rule suffix_resolve [OF pc(1) pc(2) C]) simp
  note s = stat_fallback [OF pc(1) w1 pj]
  show ?thesis
  proof (cases "walk (files w) [] (root @ [C @ ''.json''])")
    case (Inl e)
    then have "e = ENOENT"
      using walk_child [OF wr, of "C @ ''.json''"] by (auto split: option.splits)
    then show ?thesis using s Inl cne by (simp add: ReadAll_def Let_def)
  next
    case (Inr n)
    have "read_dir (files w) (root @ [C]) = Inl ENOENT" using w1 by (simp add: read_dir_def)
    then show ?thesis using s Inr cne pc
      by (simp add: ReadAll_def Let_def ioutil_ReadDir_def)
  qed
qed

text \<open>
  C4. In a store at \<open>root\<close>, for a proper name \<open>C\<close> whose collection directory exists:
  \<open>Delete\<close> with the empty resource name succeeds, removes the directory \<^verbatim>\<open>root/C\<close> and
  every entry below it, and leaves every other entry as it was; a \<open>ReadAll\<close> of \<open>C\<close> that
  follows fails with \<^verbatim>\<open>ENOENT\<close>.
\<close>

theorem Delete_empty_resource_removes_collection:
  assumes r: "resolve (cwd w) (dir d) = Some root" and C: "plain C"
    and f: "walk (files w) [] (root @ [C]) = Inr Dir"
    and D: "Delete d C [] w = (res, d', w')"
  shows "res = None
     \<and> (\<forall>q. node_at (files w') q = (if prefix (root @ [C]) q then None else node_at (files w) q))
     \<and> fst (ReadAll d' C w') = Inl (PathError ENOENT)"
proof -
  obtain m d1 w1 where g: "getOrCreateMutex d C w = (m, d1, w1)"
    by (cases "getOrCreateMutex d C w") auto
  note gw = getOrCreateMutex_world [OF g]
  let ?w2 = "emit (MutexLock m) w1"
  obtain r2 w3 where b: "Delete_locked d1 (Join [C, []]) ?w2 = (r2, w3)"
    by (cases "Delete_locked d1 (Join [C, []]) ?w2") auto
  have eq: "res = r2" "d' = d1" "w' = emit (MutexUnlock m) w3"
    using Delete_unfold [OF g b] D by simp_all
  have r1: "resolve (cwd ?w2) (dir d1) = Some root" using r gw by simp
  note pd = path_delete_collection [OF r1 C]
  have ne: "root @ [C] \<noteq> []" by simp
  have f2: "walk (files ?w2) [] (root @ [C]) = Inr Dir" using f gw by simp
  have "r2 = None \<and> cwd w3 = cwd ?w2
     \<and> files w3 = filter (\<lambda>(k, n). \<not> prefix (root @ [C]) k) (files ?w2)
     \<and> trace w3 = trace ?w2 @ [Stat (Join [dir d1, Join [C, []]]), RemoveAll (Join [dir d1, Join [C, []]])]"
    by (rule Delete_locked_directory [OF pd(2) ne pd(4) f2 b])
  then have res: "res = None" and cw: "cwd w' = cwd w"
    and fl: "files w' = filter (\<lambda>(k, n). \<not> prefix (root @ [C]) k) (files w)"
    using eq gw by simp_all
  note nodes = removed_nodes [OF ne fl]
  have wr: "walk (files w') [] root = Inr Dir"
    using removed_walk [OF ne fl, of root] walk_parent [OF f] by simp
  have nn: "node_at (files w') (root @ [C]) = None" using nodes by simp
  have r3: "resolve (cwd w') (dir d') = Some root" using r cw eq gw by simp
  have ra: "fst (ReadAll d' C w') = Inl (PathError ENOENT)"
    by (rule ReadAll_missing [OF r3 C wr nn])
  show ?thesis using res nodes ra by blast
qed

theorem Delete_empty_resource_removes_collection_witness:
  "fst (Delete db_users ''users'' [] users_world) = None
   \<and> files (snd (snd (Delete db_users ''users'' [] users_world)))
      = [([''home''], Dir), ([''home'', ''db''], Dir)]
   \<and> (case Delete db_users ''users'' [] users_world of
        (res, d', w') \<Rightarrow> fst (ReadAll d' ''users'' w')) = Inl (PathError ENOENT)"
proof -
  obtain res d' w' where D: "Delete db_users ''users'' [] users_world = (res, d', w')"
    by (cases "Delete db_users ''users'' [] users_world") auto
  have r: "resolve (cwd users_world) (dir db_users) = Some [''home'', ''db'']"
    by (simp add: eval_defs)
  have f: "walk (files users_world) [] ([''home'', ''db''] @ [''users'']) = Inr Dir"
    by (simp add: users_world_def node_at_def)
  note t = Delete_empty_resource_removes_collection [OF r plain_users f D]
  have a: "res = None" and c: "fst (ReadAll d' ''users'' w') = Inl (PathError ENOENT)"
    using t by blast+
  have b: "files (snd (snd (Delete db_users ''users'' [] users_world)))
      = [([''home''], Dir), ([''home'', ''db''], Dir)]"
    by (simp add: eval_defs)
  show ?thesis using a b c D by simp
qed

text \<open>
  C5, as the code has it. \<open>Delete\<close> validates nothing. In a store whose root path ends in
  a proper name and whose root directory exists, \<open>Delete\<close> with two empty names probes
  the cleaned root path, which resolves to the root directory, hands that path to
  \<^verbatim>\<open>os.RemoveAll\<close> and returns success: the root directory and every entry below it are
  gone, every other entry is as before.
\<close>

theorem Delete_empty_names_removes_root:
  assumes r: "resolve (cwd w) (dir d) = Some root"
    and pl: "plain (last (split_sep (dir d)))"
    and f: "walk (files w) [] root = Inr Dir"
    and D: "Delete d [] [] w = (res, d', w')"
  shows "res = None
     \<and> resolve (cwd w) (Clean (dir d)) = Some root
     \<and> (\<exists>m. trace w' = trace w @ [MuLock, MuUnlock, MutexLock m, Stat (Clean (dir d)),
                                 RemoveAll (Clean (dir d)), MutexUnlock m])
     \<and> (\<forall>q. node_at (files w') q = (if prefix root q then None else node_at (files w) q))"
proof -
  obtain m d1 w1 where g: "getOrCreateMutex d [] w = (m, d1, w1)"
    by (cases "getOrCreateMutex d [] w") auto
  note gw = getOrCreateMutex_world [OF g]
  let ?w2 = "emit (MutexLock m) w1"
  obtain r2 w3 where b: "Delete_locked d1 (Join [[], []]) ?w2 = (r2, w3)"
    by (cases "Delete_locked d1 (Join [[], []]) ?w2") auto
  have eq: "res = r2" "d' = d1" "w' = emit (MutexUnlock m) w3"
    using Delete_unfold [OF g b] D by simp_all
  have r1: "resolve (cwd ?w2) (dir d1) = Some root" using r gw by simp
  have pl1: "plain (last (split_sep (dir d1)))" using pl gw by simp
  note pr = path_root [OF r1 pl1]
  have f2: "walk (files ?w2) [] root = Inr Dir" using f gw by simp
  have p: "resolve (cwd ?w2) (Join [dir d1, Join [[], []]]) = Some root"
    using pr(1,2) by simp
  have nd: "\<not> endsWithDot (Join [dir d1, Join [[], []]])" using pr(1,3) by simp
  have "r2 = None \<and> cwd w3 = cwd ?w2
     \<and> files w3 = filter (\<lambda>(k, n). \<not> prefix root k) (files ?w2)
     \<and> trace w3 = trace ?w2 @ [Stat (Join [dir d1, Join [[], []]]),
                                RemoveAll (Join [dir d1, Join [[], []]])]"
    by (rule Delete_locked_directory [OF p pr(5) nd f2 b])
  then have res: "res = None"
    and fl: "files w' = filter (\<lambda>(k, n). \<not> prefix root k) (files w)"
    and tr: "trace w' = trace w @ [MuLock, MuUnlock, MutexLock m, Stat (Clean (dir d)),
                                 RemoveAll (Clean (dir d)), MutexUnlock m]"
    using eq gw pr(1) by simp_all
  have rs: "resolve (cwd w) (Clean (dir d)) = Some root" using pr(2) gw by simp
  show ?thesis using res rs tr removed_nodes [OF pr(5) fl] by blast
qed

theorem Delete_empty_names_removes_root_witness:
  "fst (Delete db_users [] [] users_world) = None
   \<and> files (snd (snd (Delete db_users [] [] users_world))) = [([''home''], Dir)]"
proof -
  obtain res d' w' where D: "Delete db_users [] [] users_world = (res, d', w')"
    by (cases "Delete db_users [] [] users_world") auto
  have r: "resolve (cwd users_world) (dir db_users) = Some [''home'', ''db'']"
    by (simp add: eval_defs)
  have pl: "plain (last (split_sep (dir db_users)))"
    by (simp add: db_users_def plain_def)
  have f: "walk (files users_world) [] [''home'', ''db''] = Inr Dir"
    by (simp add: users_world_def node_at_def)
  note t = Delete_empty_names_removes_root [OF r pl f D]
  have a: "res = None" using t by blast
  have b: "files (snd (snd (Delete db_users [] [] users_world))) = [([''home''], Dir)]"
    by (simp add: eval_defs)
  show ?thesis using a b D by simp
qed

text \<open>
  C5 as stated fails for the store that \<^verbatim>\<open>main\<close> constructs, at \<^verbatim>\<open>./\<close>: its root path is
  \<^verbatim>\<open>.\<close>, the root directory exists, and \<^verbatim>\<open>os.RemoveAll(".")\<close> refuses with \<^verbatim>\<open>EINVAL\<close>.
  \<open>Delete\<close> with two empty names returns that error and removes nothing.
\<close>

theorem Delete_empty_names_at_dot_fails:
  "(case New ''./'' users_world of
      ((d, e), w1) \<Rightarrow>
        (dir d, e, fst (Delete d [] [] w1),
         files (snd (snd (Delete d [] [] w1))) = files users_world,
         drop (length (trace w1)) (trace (snd (snd (Delete d [] [] w1))))))
   = (''.'', None, Some (PathError EINVAL), True,
      [MuLock, MuUnlock, MutexLock 1, Stat ''.'', RemoveAll ''.'', MutexUnlock 1])"
  by (simp add: eval_defs)

section \<open>Read\<close>

text \<open>
  When neither \<^verbatim>\<open>root/C/R.json\<close> nor \<^verbatim>\<open>root/C/R.json.json\<close> can be found, \<open>Read\<close> stops at
  the probe: it returns \<^verbatim>\<open>ENOENT\<close>, leaves the target as it was and changes no file.
\<close>

lemma Read_absent:
  assumes r: "resolve (cwd w) (dir d) = Some root" and C: "plain C" and R: "plain R"
    and a: "walk (files w) [] (root @ [C, R @ ''.json'']) = Inl ENOENT"
    and b: "walk (files w) [] (root @ [C, R @ ''.json.json'']) = Inl ENOENT"
  shows "Read J d C R v w =
     ((Some (PathError ENOENT), v),
      w\<lparr>trace := trace w @ [Stat (Join [dir d, C, R @ ''.json'']),
                             Stat (Join [dir d, C, R @ ''.json''] @ ''.json'')]\<rparr>)"
proof -
  note pr = path_record [OF r C R]
  have ne: "C \<noteq> []" "R \<noteq> []" using C R by (simp_all add: plain_def)
  from stat_fallback [OF pr(1) a pr(2)] b ne show ?thesis
    by (simp add: Read_def Let_def emit_def)
qed

text \<open>
  C7 fails on the code. The store holds one resource, written under the name
  \<^verbatim>\<open>John.json\<close>, so its file is \<^verbatim>\<open>db/users/John.json.json\<close>; no resource John was ever
  written and no file \<^verbatim>\<open>db/users/John.json\<close> exists. \<open>Read\<close> of John probes
  \<^verbatim>\<open>db/users/John.json\<close>, falls back to \<^verbatim>\<open>db/users/John.json.json\<close>, opens that file and
  decodes it into the target: it returns nil and the target holds the other resource's
  value.
\<close>

theorem Read_of_unwritten_resource_succeeds:
  "(case Write string_codec db ''users'' ''John.json'' ''x'' db_world of
      (r, d1, w1) \<Rightarrow>
        (r, walk (files w1) [] [''home'', ''db'', ''users'', ''John.json''],
         fst (Read string_codec d1 ''users'' ''John'' ''old'' w1),
         drop (length (trace w1)) (trace (snd (Read string_codec d1 ''users'' ''John'' ''old'' w1)))))
   = (None, Inl ENOENT, (None, ''x''),
      [Stat ''db/users/John.json'', Stat ''db/users/John.json.json'',
       ReadFile ''db/users/John.json.json''])"
  by (simp add: eval_defs)

section \<open>ReadAll\<close>













section \<open>The mutex registry\<close>

lemma getOrCreateMutex_preserves:
  assumes "mutexes d C = Some m" and "getOrCreateMutex d c w = (m', d', w')"
  shows "mutexes d' C = Some m"
proof (cases "mutexes d c")
  case None
  with assms(1) have "c \<noteq> C" by auto
  with assms None show ?thesis by (auto simp: getOrCreateMutex_def Let_def)
next
  case (Some a)
  with assms show ?thesis by (auto simp: getOrCreateMutex_def Let_def)
qed

lemma getOrCreateMutex_registered:
  assumes "mutexes d C = Some m"
  shows "getOrCreateMutex d C w = (m, d, emit MuUnlock (emit MuLock w))"
  using assms by (simp add: getOrCreateMutex_def Let_def)

lemma getOrCreateMutex_stores:
  assumes "getOrCreateMutex d C w = (m, d1, w1)"
  shows "mutexes d1 C = Some m"
  using assms by (cases "mutexes d C") (auto simp: getOrCreateMutex_def Let_def)

lemma acquisitions_preserve:
  assumes "mutexes d1 C = Some m"
    and "fold (\<lambda>c (d, w). case getOrCreateMutex d c w of (m', d', w') \<Rightarrow> (d', w')) cs (d1, w1)
          = (d2, w2)"
  shows "mutexes d2 C = Some m"
  using assms
proof (induction cs arbitrary: d1 w1)
  case Nil
  then show ?case by simp
next
  case (Cons c cs)
  obtain m' d' w' where step: "getOrCreateMutex d1 c w1 = (m', d', w')"
    by (cases "getOrCreateMutex d1 c w1") auto
  have "mutexes d' C = Some m"
    using getOrCreateMutex_preserves [OF Cons.prems(1) step] .
  moreover have "fold (\<lambda>c (d, w). case getOrCreateMutex d c w of (m', d', w') \<Rightarrow> (d', w')) cs (d', w')
      = (d2, w2)"
    using Cons.prems(2) step by simp
  ultimately show ?case by (rule Cons.IH)
qed

text \<open>
  C9. The first acquisition for a collection name allocates a new mutex (the next free
  address, which no other name of the registry holds when the registry holds allocated
  addresses only) and stores it under the name. After that, and after any further
  acquisitions \<open>cs\<close> on the same driver, an acquisition for the same name returns the
  same mutex and leaves the registry as it is.
\<close>

theorem getOrCreateMutex_one_lock_per_name:
  assumes "getOrCreateMutex d C w = (m, d1, w1)"
    and "fold (\<lambda>c (d, w). case getOrCreateMutex d c w of (m', d', w') \<Rightarrow> (d', w')) cs (d1, w1)
          = (d2, w2)"
  shows "mutexes d1 C = Some m
       \<and> (mutexes d C = None \<longrightarrow>
            m = allocated w \<and> allocated w1 = Suc m \<and> mutexes d1 = (mutexes d)(C \<mapsto> m)
            \<and> ((\<forall>c a. mutexes d c = Some a \<longrightarrow> a < allocated w) \<longrightarrow>
                 (\<forall>c. mutexes d c \<noteq> Some m)))
       \<and> (mutexes d C \<noteq> None \<longrightarrow> mutexes d C = Some m \<and> d1 = d)
       \<and> getOrCreateMutex d2 C w2 = (m, d2, emit MuUnlock (emit MuLock w2))"
proof -
  have stored: "mutexes d1 C = Some m"
    using getOrCreateMutex_stores [OF assms(1)] .
  have first: "mutexes d C = None \<longrightarrow>
            m = allocated w \<and> allocated w1 = Suc m \<and> mutexes d1 = (mutexes d)(C \<mapsto> m)
            \<and> ((\<forall>c a. mutexes d c = Some a \<longrightarrow> a < allocated w) \<longrightarrow>
                 (\<forall>c. mutexes d c \<noteq> Some m))"
    using assms(1) by (fastforce simp: getOrCreateMutex_def Let_def emit_def)
  have again: "mutexes d C \<noteq> None \<longrightarrow> mutexes d C = Some m \<and> d1 = d"
    using assms(1) by (auto simp: getOrCreateMutex_def Let_def)
  have "mutexes d2 C = Some m"
    using acquisitions_preserve [OF stored assms(2)] .
  then have later: "getOrCreateMutex d2 C w2 = (m, d2, emit MuUnlock (emit MuLock w2))"
    by (rule getOrCreateMutex_registered)
  from stored first again later show ?thesis by blast
qed

theorem getOrCreateMutex_one_lock_per_name_witness:
  "getOrCreateMutex db ''users'' db_world
     = (0, db\<lparr>mutexes := [''users'' \<mapsto> 0]\<rparr>,
        db_world\<lparr>allocated := 1, trace := [MuLock, MuUnlock]\<rparr>)
   \<and> mutexes db ''users'' = None
   \<and> (case getOrCreateMutex (db\<lparr>mutexes := [''users'' \<mapsto> 0]\<rparr>) ''posts''
             (db_world\<lparr>allocated := 1, trace := [MuLock, MuUnlock]\<rparr>) of
        (m', d2, w2) \<Rightarrow> m' = 1 \<and> fst (getOrCreateMutex d2 ''users'' w2) = 0
          \<and> fst (snd (getOrCreateMutex d2 ''users'' w2)) = d2)"
proof -
  let ?d1 = "db\<lparr>mutexes := [''users'' \<mapsto> 0]\<rparr>"
  let ?w1 = "db_world\<lparr>allocated := 1, trace := [MuLock, MuUnlock]\<rparr>"
  let ?d2 = "db\<lparr>mutexes := [''users'' \<mapsto> 0, ''posts'' \<mapsto> 1]\<rparr>"
  let ?w2 = "db_world\<lparr>allocated := 2, trace := [MuLock, MuUnlock, MuLock, MuUnlock]\<rparr>"
  have a: "getOrCreateMutex db ''users'' db_world = (0, ?d1, ?w1)"
    by (simp add: getOrCreateMutex_def db_def db_world_def emit_def)
  have b: "fold (\<lambda>c (d, w). case getOrCreateMutex d c w of (m', d', w') \<Rightarrow> (d', w'))
             [''posts''] (?d1, ?w1) = (?d2, ?w2)"
    by (simp add: getOrCreateMutex_def db_def db_world_def emit_def)
  have c: "getOrCreateMutex ?d1 ''posts'' ?w1 = (1, ?d2, ?w2)"
    by (simp add: getOrCreateMutex_def db_def db_world_def emit_def)
  from getOrCreateMutex_one_lock_per_name [OF a b]
  have "getOrCreateMutex ?d2 ''users'' ?w2 = (0, ?d2, emit MuUnlock (emit MuLock ?w2))"
    by blast
  with a c show ?thesis by (simp add: db_def)
qed

section \<open>Validation in Write\<close>

text \<open>
  C6. \<open>Write\<close> with an empty collection name, and \<open>Write\<close> with an empty resource name,
  return a validation error (an error made by \<^verbatim>\<open>fmt.Errorf\<close>) and hand back the driver
  and the world they were given: no call is recorded, no file or directory is created,
  no mutex is allocated.
\<close>

theorem Write_empty_name_no_access:
  "(\<exists>msg. Write J d [] R v w = (Some (Errorf msg), d, w))
   \<and> (\<exists>msg. Write J d C [] v w = (Some (Errorf msg), d, w))"
  by (simp add: Write_def)

section \<open>Which operations lock\<close>


lemma fs_only_refl: "fs_only w w"
  by (simp add: fs_only_def)

lemma fs_only_trans: "fs_only w w1 \<Longrightarrow> fs_only w1 w2 \<Longrightarrow> fs_only w w2"
  by (auto simp: fs_only_def)

lemma fs_only_os_Stat: "os_Stat p w = (r, w') \<Longrightarrow> fs_only w w'"
  by (auto simp: fs_only_def os_Stat_def emit_def)

lemma fs_only_stat: "stat p w = (r, w') \<Longrightarrow> fs_only w w'"
  by (auto simp: fs_only_def stat_def os_Stat_def emit_def split: sum.splits if_splits)

lemma fs_only_MkdirAll: "os_MkdirAll p w = (r, w') \<Longrightarrow> fs_only w w'"
  by (auto simp: fs_only_def os_MkdirAll_def emit_def Let_def split: option.splits sum.splits)

lemma fs_only_WriteFile: "ioutil_WriteFile p b w = (r, w') \<Longrightarrow> fs_only w w'"
  by (auto simp: fs_only_def ioutil_WriteFile_def emit_def Let_def split: option.splits sum.splits)

lemma fs_only_Rename: "os_Rename p q w = (r, w') \<Longrightarrow> fs_only w w'"
  by (auto simp: fs_only_def os_Rename_def emit_def Let_def split: option.splits sum.splits)

lemma fs_only_RemoveAll: "os_RemoveAll p w = (r, w') \<Longrightarrow> fs_only w w'"
  by (auto simp: fs_only_def os_RemoveAll_def emit_def Let_def split: option.splits sum.splits if_splits prod.splits)

lemma fs_only_ReadDir: "ioutil_ReadDir p w = (r, w') \<Longrightarrow> fs_only w w'"
  by (auto simp: fs_only_def ioutil_ReadDir_def emit_def)

lemma fs_only_ReadFile: "ioutil_ReadFile p w = (r, w') \<Longrightarrow> fs_only w w'"
  by (auto simp: fs_only_def ioutil_ReadFile_def emit_def)

lemma fs_only_Write_locked: "Write_locked J d C R v w = (r, w') \<Longrightarrow> fs_only w w'"
  unfolding Write_locked_def Let_def
  by (auto split: prod.splits option.splits sum.splits
      intro: fs_only_trans dest!: fs_only_MkdirAll fs_only_WriteFile fs_only_Rename)

lemma fs_only_Delete_locked: "Delete_locked d p w = (r, w') \<Longrightarrow> fs_only w w'"
  unfolding Delete_locked_def Let_def
  by (auto split: prod.splits option.splits sum.splits if_splits
      intro: fs_only_trans dest!: fs_only_stat fs_only_RemoveAll)

lemma fs_only_ReadAll_loop: "ReadAll_loop dn names recs w = (r, w') \<Longrightarrow> fs_only w w'"
proof (induction names arbitrary: recs w)
  case Nil
  then show ?case by (simp add: fs_only_refl)
next
  case (Cons n names)
  then show ?case
    by (auto split: prod.splits sum.splits intro: fs_only_trans dest!: fs_only_ReadFile)
qed

lemma fs_only_ReadAll: "ReadAll d C w = (r, w') \<Longrightarrow> fs_only w w'"
  unfolding ReadAll_def Let_def
  by (auto split: prod.splits sum.splits if_splits
      intro: fs_only_trans fs_only_refl dest!: fs_only_stat fs_only_ReadDir fs_only_ReadAll_loop)

lemma fs_only_Read: "Read J d C R v w = (r, w') \<Longrightarrow> fs_only w w'"
  unfolding Read_def Let_def
  by (auto split: prod.splits sum.splits if_splits
      intro: fs_only_trans fs_only_refl dest!: fs_only_stat fs_only_ReadFile)

lemma locked_shape:
  assumes g: "getOrCreateMutex d C w = (m, d1, w1)"
    and b: "fs_only (emit (MutexLock m) w1) w2"
  shows "\<exists>evs. trace (emit (MutexUnlock m) w2) = trace w @ [MuLock, MuUnlock, MutexLock m] @ evs @ [MutexUnlock m]
      \<and> list_all is_fs_call evs \<and> mutexes d1 C = Some m"
proof -
  have "trace w1 = trace w @ [MuLock, MuUnlock]"
    using g by (auto simp: getOrCreateMutex_def Let_def emit_def split: option.splits)
  moreover have "mutexes d1 C = Some m" using getOrCreateMutex_stores [OF g] .
  ultimately show ?thesis using b by (auto simp: fs_only_def emit_def)
qed

text \<open>
  C10, as the code has it. \<open>Write\<close> (with both names given) and \<open>Delete\<close> fetch the
  collection's mutex from the registry, lock it before their first call to the file
  system and unlock it after the last. \<open>Read\<close> and \<open>ReadAll\<close> record calls to the file
  system only: they never touch the registry and lock nothing.
\<close>

theorem locks_taken_by_Write_and_Delete_only:
  "(C \<noteq> [] \<and> R \<noteq> [] \<longrightarrow>
      (\<exists>m evs. trace (snd (snd (Write J d C R v w)))
                  = trace w @ [MuLock, MuUnlock, MutexLock m] @ evs @ [MutexUnlock m]
              \<and> list_all is_fs_call evs
              \<and> mutexes (fst (snd (Write J d C R v w))) C = Some m))
   \<and> (\<exists>m evs. trace (snd (snd (Delete d C R w)))
                  = trace w @ [MuLock, MuUnlock, MutexLock m] @ evs @ [MutexUnlock m]
              \<and> list_all is_fs_call evs
              \<and> mutexes (fst (snd (Delete d C R w))) C = Some m)
   \<and> (\<exists>evs. trace (snd (Read J d C R v w)) = trace w @ evs \<and> list_all is_fs_call evs)
   \<and> (\<exists>evs. trace (snd (ReadAll d C w)) = trace w @ evs \<and> list_all is_fs_call evs)"
proof -
  obtain m d1 w1 where g: "getOrCreateMutex d C w = (m, d1, w1)"
    by (cases "getOrCreateMutex d C w") auto
  have wr: "C \<noteq> [] \<and> R \<noteq> [] \<longrightarrow>
      (\<exists>m evs. trace (snd (snd (Write J d C R v w)))
                  = trace w @ [MuLock, MuUnlock, MutexLock m] @ evs @ [MutexUnlock m]
              \<and> list_all is_fs_call evs
              \<and> mutexes (fst (snd (Write J d C R v w))) C = Some m)"
  proof
    assume ne: "C \<noteq> [] \<and> R \<noteq> []"
    obtain r w2 where b: "Write_locked J d1 C R v (emit (MutexLock m) w1) = (r, w2)"
      by (cases "Write_locked J d1 C R v (emit (MutexLock m) w1)") auto
    have eq: "Write J d C R v w = (r, d1, emit (MutexUnlock m) w2)"
      using ne g b by (simp add: Write_def)
    show "\<exists>m evs. trace (snd (snd (Write J d C R v w)))
                  = trace w @ [MuLock, MuUnlock, MutexLock m] @ evs @ [MutexUnlock m]
              \<and> list_all is_fs_call evs
              \<and> mutexes (fst (snd (Write J d C R v w))) C = Some m"
      using locked_shape [OF g fs_only_Write_locked [OF b]] unfolding eq by auto
  qed
  have de: "\<exists>m evs. trace (snd (snd (Delete d C R w)))
                  = trace w @ [MuLock, MuUnlock, MutexLock m] @ evs @ [MutexUnlock m]
              \<and> list_all is_fs_call evs
              \<and> mutexes (fst (snd (Delete d C R w))) C = Some m"
  proof -
    obtain r w2 where b: "Delete_locked d1 (Join [C, R]) (emit (MutexLock m) w1) = (r, w2)"
      by (cases "Delete_locked d1 (Join [C, R]) (emit (MutexLock m) w1)") auto
    have eq: "Delete d C R w = (r, d1, emit (MutexUnlock m) w2)"
      using g b by (simp add: Delete_def)
    show ?thesis
      using locked_shape [OF g fs_only_Delete_locked [OF b]] unfolding eq by auto
  qed
  have rd: "\<exists>evs. trace (snd (Read J d C R v w)) = trace w @ evs \<and> list_all is_fs_call evs"
    using fs_only_Read [of J d C R v w] unfolding fs_only_def
    by (cases "Read J d C R v w") auto
  have ra: "\<exists>evs. trace (snd (ReadAll d C w)) = trace w @ evs \<and> list_all is_fs_call evs"
    using fs_only_ReadAll [of d C w] unfolding fs_only_def
    by (cases "ReadAll d C w") auto
  from wr de rd ra show ?thesis by blast
qed

text \<open>
  C10 as stated fails: on a store that holds the resources John and Mary in the
  collection users, these are all the events of a \<open>Read\<close> and of a \<open>ReadAll\<close>.
\<close>

theorem Read_and_ReadAll_take_no_lock:
  "trace (snd (Read string_codec db_users ''users'' ''John'' ''old'' users_world))
     = [Stat ''db/users/John.json'', ReadFile ''db/users/John.json.json'']
   \<and> trace (snd (ReadAll db_users ''users'' users_world))
     = [Stat ''db/users'', ReadDir ''db/users'', ReadFile ''db/users/John.json'',
        ReadFile ''db/users/Mary.json'']"
  by (simp add: eval_defs)

theorem locks_taken_by_Write_and_Delete_only_witness:
  "trace (snd (snd (Write string_codec db ''users'' ''John'' ''x'' db_world)))
    = [MuLock, MuUnlock, MutexLock 0, MkdirAll ''db/users'',
       WriteFile ''db/users/John.json.tmp'' [CHR 0x22, CHR ''x'', CHR 0x22, CHR 0x0A],
       Rename ''db/users/John.json.tmp'' ''db/users/John.json'', MutexUnlock 0]"
  using locks_taken_by_Write_and_Delete_only [of "''users''" "''John''" string_codec db "''x''" db_world]
  by (simp add: eval_defs)

end
